theory Spec2Isabelle
  imports Main "HOL-Library.Multiset" "HOL-Library.Sublist"
begin

section \<open>The Interledger engine of sofie_asset_transfer/interledger.py\<close>

text \<open>
  The engine keeps two Python lists of \<^emph>\<open>Transfer\<close> objects, \<open>transfers\<close> (the pool) and
  \<open>transfers_sent\<close> (the in-flight list). The same object is referenced from both lists
  and is mutated in place, so the model has an explicit store: a transfer is a reference
  (an address), \<open>heap\<close> maps a reference to the object's attributes, and the two lists
  hold references. \<open>next_ref\<close> is the allocation pointer used by \<open>Transfer()\<close>.

  The adapters are not part of the file. What they do is an input of the model:
  the outcome of the Initiator's \<open>get_transfers()\<close>, the status of every task started
  for the Responder's \<open>receive_transfer(t)\<close>, and the lists \<open>query_by_state\<close> returns.
  What the engine asks of them is recorded in two traces: \<open>responder_calls\<close> (the task
  created by the k-th \<open>asyncio.ensure_future(self.responder.receive_transfer(t))\<close> is
  task k) and \<open>initiator_calls\<close> (commit and abort requests, in order).
\<close>

subsection \<open>Data\<close>

datatype State = READY | SENT | COMPLETED | PROCESSED

type_synonym ref = nat
type_synonym task = nat

text \<open>
  \<open>result\<close> is \<open>None\<close> for Python's \<open>None\<close> and \<open>Some b\<close> for a boolean;
  \<open>data\<close> is \<open>None\<close> or a dictionary.
\<close>

record 'a Transfer =
  future :: "task option"
  result :: "bool option"
  state :: State
  data :: "(string \<rightharpoonup> 'a) option"

definition Transfer_init :: "'a Transfer" where
  "Transfer_init = \<lparr>future = None, result = None, state = READY, data = None\<rparr>"

datatype error = ValueError | TypeError | AttributeError | AdapterError string

text \<open>The status of an asyncio task at some moment: still running, finished with a value,
  or finished with an exception (a cancelled task counts as the latter).\<close>

datatype fstatus = Pending | Done "bool option" | Failed error

fun future_done :: "fstatus \<Rightarrow> bool" where
  "future_done Pending = False"
| "future_done (Done v) = True"
| "future_done (Failed e) = True"

datatype call = Commit ref | Abort ref

fun target :: "call \<Rightarrow> ref" where
  "target (Commit t) = t"
| "target (Abort t) = t"

record 'a Interledger =
  heap :: "ref \<Rightarrow> 'a Transfer"
  next_ref :: ref
  transfers :: "ref list"
  transfers_sent :: "ref list"
  pending :: int
  keep_running :: bool
  results_abort :: "bool option list"
  results_commit :: "bool option list"
  responder_calls :: "ref list"
  initiator_calls :: "call list"

text \<open>How a coroutine of the engine ends at the moment it is looked at: it has returned a
  value, it has raised, or it is still suspended in its \<open>await\<close>.\<close>

datatype 'r outcome = Returned 'r | Raised error | Blocked

subsection \<open>Construction and the four stage operations\<close>

text \<open>\<open>Interledger.__init__\<close>; \<open>h\<close> and \<open>n\<close> are the store the engine is created in.\<close>

definition Interledger_init :: "(ref \<Rightarrow> 'a Transfer) \<Rightarrow> ref \<Rightarrow> 'a Interledger" where
  "Interledger_init h n =
     \<lparr>heap = h, next_ref = n, transfers = [], transfers_sent = [], pending = 0,
      keep_running = True, results_abort = [], results_commit = [],
      responder_calls = [], initiator_calls = []\<rparr>"

definition stop :: "'a Interledger \<Rightarrow> 'a Interledger" where
  "stop st = st\<lparr>keep_running := False\<rparr>"

text \<open>\<open>receive_transfer\<close>: \<open>poll\<close> is what \<open>await self.initiator.get_transfers()\<close> produced,
  an exception or a list of transfer objects.\<close>

definition receive_transfer ::
  "error + ref list \<Rightarrow> 'a Interledger \<Rightarrow> nat outcome \<times> 'a Interledger" where
  "receive_transfer poll st =
     (case poll of
        Inl e \<Rightarrow> (Raised e, st)
      | Inr ts \<Rightarrow>
          (Returned (length ts),
           if length ts > 0 then st\<lparr>transfers := transfers st @ ts\<rparr> else st))"

text \<open>\<open>send_transfer\<close>: the body of the loop for one READY transfer, and the loop.\<close>

definition send_one :: "ref \<Rightarrow> 'a Interledger \<Rightarrow> 'a Interledger" where
  "send_one t st =
     st\<lparr>heap := (heap st)(t := (heap st t)\<lparr>future := Some (length (responder_calls st)),
                                            state := SENT\<rparr>),
        responder_calls := responder_calls st @ [t],
        transfers_sent := transfers_sent st @ [t],
        pending := pending st + 1\<rparr>"

fun send_loop :: "ref list \<Rightarrow> 'a Interledger \<Rightarrow> 'a Interledger" where
  "send_loop [] st = st"
| "send_loop (t # ts) st =
     send_loop ts (if state (heap st t) = READY then send_one t st else st)"

definition send_transfer :: "'a Interledger \<Rightarrow> 'a Interledger" where
  "send_transfer st = send_loop (transfers st) st"

text \<open>
  \<open>transfer_result\<close>. \<open>fs\<close> gives the status of every task at the moment the coroutine
  is looked at. \<open>asyncio.wait(futures, return_when=FIRST_COMPLETED)\<close> raises ValueError
  on an empty list, raises on an entry that is not awaitable (\<open>None\<close>: a TypeError in
  the interpreters the repository targets), and otherwise returns as soon as one of the
  futures is done. Between the return of the wait and the end of the loop the coroutine
  is not suspended, so the loop sees the same \<open>fs\<close>. \<open>future.result()\<close> re-raises the
  exception of a task that failed, and the loop ends there: what it stored before stays.
\<close>

definition asyncio_wait :: "(task \<Rightarrow> fstatus) \<Rightarrow> task option list \<Rightarrow> unit outcome" where
  "asyncio_wait fs futures =
     (if futures = [] then Raised ValueError
      else if None \<in> set futures then Raised TypeError
      else if list_ex (\<lambda>f. case f of None \<Rightarrow> False | Some k \<Rightarrow> future_done (fs k)) futures
           then Returned ()
      else Blocked)"

definition store_result :: "ref \<Rightarrow> bool option \<Rightarrow> 'a Interledger \<Rightarrow> 'a Interledger" where
  "store_result t v st =
     st\<lparr>heap := (heap st)(t := (heap st t)\<lparr>result := v, state := COMPLETED\<rparr>)\<rparr>"

fun collect_loop ::
  "(task \<Rightarrow> fstatus) \<Rightarrow> ref list \<Rightarrow> 'a Interledger \<Rightarrow> unit outcome \<times> 'a Interledger" where
  "collect_loop fs [] st = (Returned (), st)"
| "collect_loop fs (t # ts) st =
     (if state (heap st t) = SENT \<and> \<not> state (heap st t) = COMPLETED then
        (case future (heap st t) of
           None \<Rightarrow> (Raised AttributeError, st)
         | Some f \<Rightarrow>
             (case fs f of
                Pending \<Rightarrow> collect_loop fs ts st
              | Done v \<Rightarrow> collect_loop fs ts (store_result t v st)
              | Failed e \<Rightarrow> (Raised e, st)))
      else collect_loop fs ts st)"

text \<open>\<open>futures = [t.future for t in self.transfers_sent]\<close>\<close>

definition futures :: "'a Interledger \<Rightarrow> task option list" where
  "futures st = map (\<lambda>t. future (heap st t)) (transfers_sent st)"

definition transfer_result ::
  "(task \<Rightarrow> fstatus) \<Rightarrow> 'a Interledger \<Rightarrow> unit outcome \<times> 'a Interledger" where
  "transfer_result fs st =
     (case asyncio_wait fs (futures st) of
        Returned u \<Rightarrow> collect_loop fs (transfers_sent st) st
      | Raised e \<Rightarrow> (Raised e, st)
      | Blocked \<Rightarrow> (Blocked, st))"

text \<open>\<open>process_result\<close>. \<open>if t.result:\<close> is Python truthiness: only \<open>True\<close> passes.
  The commit or abort coroutine is handed to \<open>asyncio.ensure_future\<close> and never awaited:
  the request is appended to the trace and nothing of the adapter's answer is read.\<close>

definition truthy :: "bool option \<Rightarrow> bool" where
  "truthy r = (r = Some True)"

definition process_one :: "ref \<Rightarrow> 'a Interledger \<Rightarrow> 'a Interledger" where
  "process_one t st =
     (let st1 =
        (if truthy (result (heap st t))
         then st\<lparr>initiator_calls := initiator_calls st @ [Commit t],
                 results_commit := results_commit st @ [result (heap st t)]\<rparr>
         else st\<lparr>initiator_calls := initiator_calls st @ [Abort t],
                 results_abort := results_abort st @ [result (heap st t)]\<rparr>)
      in st1\<lparr>heap := (heap st1)(t := (heap st1 t)\<lparr>state := PROCESSED\<rparr>),
             pending := pending st1 - 1\<rparr>)"

fun process_loop :: "ref list \<Rightarrow> 'a Interledger \<Rightarrow> 'a Interledger" where
  "process_loop [] st = st"
| "process_loop (t # ts) st =
     process_loop ts (if state (heap st t) = COMPLETED then process_one t st else st)"

definition process_result :: "'a Interledger \<Rightarrow> 'a Interledger" where
  "process_result st = process_loop (transfers_sent st) st"

subsection \<open>Recovery: the constructor of StateInterledger\<close>

text \<open>Modelled from the spec: the enumeration \<open>AssetState\<close> of state_interfaces.py, which
  is not among the sources; the spec names its three tags.\<close>

datatype AssetState = NOT_HERE | TRANSFER_OUT | HERE

text \<open>
  \<open>list(set(a).intersection(b))\<close>: the elements of \<open>a\<close> that occur in \<open>b\<close>, each once.
  Python leaves the order in which a set is listed to its hash table; \<open>order\<close> stands for
  that choice (a function that rearranges a list).
\<close>

definition set_intersection_list :: "('a list \<Rightarrow> 'a list) \<Rightarrow> 'a list \<Rightarrow> 'a list \<Rightarrow> 'a list" where
  "set_intersection_list order a b = order (remdups (filter (\<lambda>x. x \<in> set b) a))"

text \<open>\<open>t = Transfer()\<close>: a new object at the allocation pointer.\<close>

definition new_Transfer :: "'a Interledger \<Rightarrow> ref \<times> 'a Interledger" where
  "new_Transfer st =
     (next_ref st,
      st\<lparr>heap := (heap st)(next_ref st := Transfer_init), next_ref := Suc (next_ref st)\<rparr>)"

fun restore_ready_loop ::
  "'a list \<Rightarrow> ref list \<Rightarrow> 'a Interledger \<Rightarrow> ref list \<times> 'a Interledger" where
  "restore_ready_loop [] new_transfers st = (new_transfers, st)"
| "restore_ready_loop (i # ids) new_transfers st =
     (case new_Transfer st of
        (t, st1) \<Rightarrow>
          restore_ready_loop ids (new_transfers @ [t])
            (st1\<lparr>heap := (heap st1)(t := (heap st1 t)\<lparr>data := Some [''assetId'' \<mapsto> i]\<rparr>)\<rparr>))"

definition restore_pending_transfers_ready ::
  "('a list \<Rightarrow> 'a list) \<Rightarrow> (AssetState \<Rightarrow> 'a list) \<Rightarrow> (AssetState \<Rightarrow> 'a list) \<Rightarrow>
   'a Interledger \<Rightarrow> ref list \<times> 'a Interledger" where
  "restore_pending_transfers_ready order initiator_query responder_query st =
     (let t_list_initiator = initiator_query TRANSFER_OUT;
          t_list_responder = responder_query NOT_HERE;
          ids = set_intersection_list order t_list_initiator t_list_responder
      in restore_ready_loop ids [] st)"

fun restore_sent_loop ::
  "'a list \<Rightarrow> ref list \<Rightarrow> 'a Interledger \<Rightarrow> ref list \<times> 'a Interledger" where
  "restore_sent_loop [] new_transfers st = (new_transfers, st)"
| "restore_sent_loop (i # ids) new_transfers st =
     (case new_Transfer st of
        (t, st1) \<Rightarrow>
          restore_sent_loop ids (new_transfers @ [t])
            (st1\<lparr>heap := (heap st1)(t := (heap st1 t)\<lparr>result := Some True, state := COMPLETED,
                                                       data := Some [''assetId'' \<mapsto> i]\<rparr>)\<rparr>))"

definition restore_pending_transfers_sent ::
  "('a list \<Rightarrow> 'a list) \<Rightarrow> (AssetState \<Rightarrow> 'a list) \<Rightarrow> (AssetState \<Rightarrow> 'a list) \<Rightarrow>
   'a Interledger \<Rightarrow> ref list \<times> 'a Interledger" where
  "restore_pending_transfers_sent order initiator_query responder_query st =
     (let t_list_initiator = initiator_query TRANSFER_OUT;
          t_list_responder = responder_query HERE;
          ids = set_intersection_list order t_list_initiator t_list_responder
      in restore_sent_loop ids [] st)"

text \<open>\<open>StateInterledger.__init__\<close>.\<close>

definition StateInterledger_init ::
  "('a list \<Rightarrow> 'a list) \<Rightarrow> (AssetState \<Rightarrow> 'a list) \<Rightarrow> (AssetState \<Rightarrow> 'a list) \<Rightarrow>
   (ref \<Rightarrow> 'a Transfer) \<Rightarrow> ref \<Rightarrow> 'a Interledger" where
  "StateInterledger_init order initiator_query responder_query h n =
     (case restore_pending_transfers_ready order initiator_query responder_query
             (Interledger_init h n) of
        (ready, st1) \<Rightarrow>
          (case restore_pending_transfers_sent order initiator_query responder_query
                  (st1\<lparr>transfers := ready\<rparr>) of
             (sent, st2) \<Rightarrow>
               (let st3 = st2\<lparr>transfers_sent := sent\<rparr>
                in st3\<lparr>pending := pending st3 + int (length (transfers_sent st3))\<rparr>)))"

text \<open>The asset id a transfer's \<open>data\<close> carries, if any.\<close>

definition assetId :: "'a Transfer \<Rightarrow> 'a option" where
  "assetId tr = (case data tr of None \<Rightarrow> None | Some d \<Rightarrow> d ''assetId'')"

subsection \<open>Runs of the engine\<close>

text \<open>
  \<open>run\<close> starts the stage coroutines as tasks of one event loop. None of them is
  suspended between its first change of the engine's attributes and its last, so a run
  of the engine is a sequence of completed stage operations, each with what the adapters
  delivered to it; an iteration of the main loop is a segment of that sequence. A
  \<open>transfer_result\<close> that resumes after other operations have completed acts as one
  started at that moment: the in-flight list has only grown since, and the handles it
  waited on are still in it. The adapters are taken not to write the attributes of a
  transfer the engine holds.
\<close>

datatype op = Receive "error + ref list" | Send | Result "task \<Rightarrow> fstatus" | Process | Stop

fun exec :: "op \<Rightarrow> 'a Interledger \<Rightarrow> 'a Interledger" where
  "exec (Receive poll) st = snd (receive_transfer poll st)"
| "exec Send st = send_transfer st"
| "exec (Result fs) st = snd (transfer_result fs st)"
| "exec Process st = process_result st"
| "exec Stop st = stop st"

fun exec_all :: "op list \<Rightarrow> 'a Interledger \<Rightarrow> 'a Interledger" where
  "exec_all [] st = st"
| "exec_all (x # xs) st = exec_all xs (exec x st)"

text \<open>The states a transfer goes through during a run, one entry per operation, and the
  chain of protocol states from a given state on.\<close>

fun state_seq :: "op list \<Rightarrow> 'a Interledger \<Rightarrow> ref \<Rightarrow> State list" where
  "state_seq [] st t = [state (heap st t)]"
| "state_seq (x # xs) st t = state (heap st t) # state_seq xs (exec x st) t"

fun chain_from :: "State \<Rightarrow> State list" where
  "chain_from READY = [READY, SENT, COMPLETED, PROCESSED]"
| "chain_from SENT = [SENT, COMPLETED, PROCESSED]"
| "chain_from COMPLETED = [COMPLETED, PROCESSED]"
| "chain_from PROCESSED = [PROCESSED]"

text \<open>The invariant the spec gives for \<open>pending\<close>: it is the number of transfers of the
  in-flight list that are SENT or COMPLETED. \<open>inflight_wf\<close> is what the proofs need besides:
  no object is listed twice in the in-flight list, and none of them is READY.\<close>

definition pending_counts_inflight :: "'a Interledger \<Rightarrow> bool" where
  "pending_counts_inflight st =
     (pending st = int (card {t \<in> set (transfers_sent st).
                              state (heap st t) = SENT \<or> state (heap st t) = COMPLETED}))"

definition inflight_wf :: "'a Interledger \<Rightarrow> bool" where
  "inflight_wf st =
     (distinct (transfers_sent st) \<and> (\<forall>t \<in> set (transfers_sent st). state (heap st t) \<noteq> READY))"

text \<open>
  The history of receive handles. \<open>collected_by xs k v\<close>: some \<open>transfer_result\<close> of the run
  \<open>xs\<close> found task \<open>k\<close> finished with value \<open>v\<close>. \<open>dispatched_handle\<close>: the transfer has a
  handle, it is the task of a call of the Responder made for this transfer, the transfer
  is in the in-flight list, and once it is COMPLETED or PROCESSED its result is a value
  that \<open>D\<close> records for the handle. \<open>handles_inv\<close> says so of every transfer the engine has
  dispatched.
\<close>

fun collects :: "op \<Rightarrow> task \<Rightarrow> bool option \<Rightarrow> bool" where
  "collects (Result fs) k v = (fs k = Done v)"
| "collects x k v = False"

definition collected_by :: "op list \<Rightarrow> task \<Rightarrow> bool option \<Rightarrow> bool" where
  "collected_by xs k v = list_ex (\<lambda>x. collects x k v) xs"

definition dispatched_handle ::
  "(task \<Rightarrow> bool option \<Rightarrow> bool) \<Rightarrow> 'a Interledger \<Rightarrow> ref \<Rightarrow> bool" where
  "dispatched_handle D st t =
     (case future (heap st t) of
        None \<Rightarrow> False
      | Some k \<Rightarrow>
          k < length (responder_calls st) \<and> responder_calls st ! k = t
          \<and> t \<in> set (transfers_sent st)
          \<and> (state (heap st t) = COMPLETED \<or> state (heap st t) = PROCESSED
               \<longrightarrow> D k (result (heap st t))))"

definition handles_inv :: "(task \<Rightarrow> bool option \<Rightarrow> bool) \<Rightarrow> 'a Interledger \<Rightarrow> bool" where
  "handles_inv D st = (\<forall>t \<in> set (responder_calls st). dispatched_handle D st t)"

subsection \<open>Example inputs\<close>

text \<open>A store in which every address holds a transfer as \<open>Transfer()\<close> builds it (the
  adapter's objects before the engine has touched them), a Responder whose every receive
  raises, and one whose first task has returned \<open>True\<close> while the others still run.\<close>

definition fresh_store :: "ref \<Rightarrow> nat Transfer" where
  "fresh_store = (\<lambda>r. Transfer_init)"

definition receive_raises :: "task \<Rightarrow> fstatus" where
  "receive_raises = (\<lambda>k. Failed (AdapterError ''receive failed''))"

definition first_done :: "task \<Rightarrow> fstatus" where
  "first_done = (\<lambda>k. if k = 0 then Done (Some True) else Pending)"

definition mixed_batch :: "task \<Rightarrow> fstatus" where
  "mixed_batch = (\<lambda>k. if k = 0 then Done (Some True) else Done (Some False))"

text \<open>Ledgers for the recovery: the Initiator reports assets 1 and 2 as TRANSFER_OUT, the
  Responder reports 2 and 3 as NOT_HERE and 1 as HERE.\<close>

definition example_initiator :: "AssetState \<Rightarrow> nat list" where
  "example_initiator s = (case s of TRANSFER_OUT \<Rightarrow> [1, 2] | NOT_HERE \<Rightarrow> [] | HERE \<Rightarrow> [])"

definition example_responder :: "AssetState \<Rightarrow> nat list" where
  "example_responder s = (case s of NOT_HERE \<Rightarrow> [2, 3] | HERE \<Rightarrow> [1] | TRANSFER_OUT \<Rightarrow> [])"

section \<open>The loops of dispatch and finalize\<close>

text \<open>What one pass of the loop body changes, and what a whole loop changes: the
  transfers it handles are listed once each (\<open>new\<close>, \<open>cs\<close>), also when a list holds the
  same object twice, because the first visit changes the state the second visit reads.\<close>

lemma send_one_frame [simp]:
  "transfers (send_one t st) = transfers st"
  "initiator_calls (send_one t st) = initiator_calls st"
  "results_commit (send_one t st) = results_commit st"
  "results_abort (send_one t st) = results_abort st"
  "next_ref (send_one t st) = next_ref st"
  "keep_running (send_one t st) = keep_running st"
  "pending (send_one t st) = pending st + 1"
  "transfers_sent (send_one t st) = transfers_sent st @ [t]"
  "responder_calls (send_one t st) = responder_calls st @ [t]"
  "heap (send_one t st) =
     (heap st)(t := (heap st t)\<lparr>future := Some (length (responder_calls st)), state := SENT\<rparr>)"
  by (simp_all add: send_one_def)

lemma send_loop_frame [simp]:
  "transfers (send_loop ts st) = transfers st"
  "initiator_calls (send_loop ts st) = initiator_calls st"
  "results_commit (send_loop ts st) = results_commit st"
  "results_abort (send_loop ts st) = results_abort st"
  "next_ref (send_loop ts st) = next_ref st"
  "keep_running (send_loop ts st) = keep_running st"
  by (induction ts arbitrary: st; simp)+

lemma send_loop_spec:
  "\<exists>new. distinct new \<and> set new = {t \<in> set ts. state (heap st t) = READY}
     \<and> transfers_sent (send_loop ts st) = transfers_sent st @ new
     \<and> responder_calls (send_loop ts st) = responder_calls st @ new
     \<and> pending (send_loop ts st) = pending st + int (length new)
     \<and> (\<forall>i<length new. heap (send_loop ts st) (new ! i) =
           (heap st (new ! i))\<lparr>future := Some (length (responder_calls st) + i), state := SENT\<rparr>)
     \<and> (\<forall>t. t \<notin> set new \<longrightarrow> heap (send_loop ts st) t = heap st t)"
proof (induction ts arbitrary: st)
  case Nil
  show ?case by (rule exI [of _ "[]"]) simp
next
  case (Cons t ts)
  show ?case
  proof (cases "state (heap st t) = READY")
    case False
    from Cons.IH [of st] obtain new where new: "distinct new"
      "set new = {t \<in> set ts. state (heap st t) = READY}"
      "transfers_sent (send_loop ts st) = transfers_sent st @ new"
      "responder_calls (send_loop ts st) = responder_calls st @ new"
      "pending (send_loop ts st) = pending st + int (length new)"
      "\<forall>i<length new. heap (send_loop ts st) (new ! i) =
           (heap st (new ! i))\<lparr>future := Some (length (responder_calls st) + i), state := SENT\<rparr>"
      "\<forall>t. t \<notin> set new \<longrightarrow> heap (send_loop ts st) t = heap st t"
      by blast
    have "set new = {u \<in> set (t # ts). state (heap st u) = READY}"
      using False new(2) by auto
    with new False show ?thesis
      by (intro exI [of _ new]) simp
  next
    case True
    let ?st1 = "send_one t st"
    from Cons.IH [of ?st1] obtain new where new: "distinct new"
      "set new = {u \<in> set ts. state (heap ?st1 u) = READY}"
      "transfers_sent (send_loop ts ?st1) = transfers_sent ?st1 @ new"
      "responder_calls (send_loop ts ?st1) = responder_calls ?st1 @ new"
      "pending (send_loop ts ?st1) = pending ?st1 + int (length new)"
      "\<forall>i<length new. heap (send_loop ts ?st1) (new ! i) =
           (heap ?st1 (new ! i))\<lparr>future := Some (length (responder_calls ?st1) + i), state := SENT\<rparr>"
      "\<forall>u. u \<notin> set new \<longrightarrow> heap (send_loop ts ?st1) u = heap ?st1 u"
      by blast
    have notin: "t \<notin> set new" using new(2) by simp
    have set_eq: "set (t # new) = {u \<in> set (t # ts). state (heap st u) = READY}"
      using True new(2) by (auto split: if_splits)
    have at: "\<forall>i<length (t # new). heap (send_loop (t # ts) st) ((t # new) ! i) =
           (heap st ((t # new) ! i))\<lparr>future := Some (length (responder_calls st) + i), state := SENT\<rparr>"
    proof (intro allI impI)
      fix i assume i: "i < length (t # new)"
      show "heap (send_loop (t # ts) st) ((t # new) ! i) =
           (heap st ((t # new) ! i))\<lparr>future := Some (length (responder_calls st) + i), state := SENT\<rparr>"
      proof (cases i)
        case 0
        then show ?thesis using True new(7) notin by simp
      next
        case (Suc j)
        then have j: "j < length new" using i by simp
        then have "new ! j \<noteq> t" using notin nth_mem by metis
        then show ?thesis using True new(6) j Suc by simp
      qed
    qed
    show ?thesis
    proof (intro exI [of _ "t # new"] conjI)
      show "distinct (t # new)" using new(1) notin by simp
      show "set (t # new) = {u \<in> set (t # ts). state (heap st u) = READY}" by (rule set_eq)
      show "transfers_sent (send_loop (t # ts) st) = transfers_sent st @ t # new"
        using True new(3) by simp
      show "responder_calls (send_loop (t # ts) st) = responder_calls st @ t # new"
        using True new(4) by simp
      show "pending (send_loop (t # ts) st) = pending st + int (length (t # new))"
        using True new(5) by simp
      show "\<forall>i<length (t # new). heap (send_loop (t # ts) st) ((t # new) ! i) =
           (heap st ((t # new) ! i))\<lparr>future := Some (length (responder_calls st) + i), state := SENT\<rparr>"
        by (rule at)
      show "\<forall>u. u \<notin> set (t # new) \<longrightarrow> heap (send_loop (t # ts) st) u = heap st u"
        using True new(7) by simp
    qed
  qed
qed

lemma send_loop_state:
  "state (heap (send_loop ts st) t) =
     (if t \<in> set ts \<and> state (heap st t) = READY then SENT else state (heap st t))"
  by (induction ts arbitrary: st) auto

lemma process_one_frame [simp]:
  "transfers (process_one t st) = transfers st"
  "transfers_sent (process_one t st) = transfers_sent st"
  "responder_calls (process_one t st) = responder_calls st"
  "next_ref (process_one t st) = next_ref st"
  "keep_running (process_one t st) = keep_running st"
  "pending (process_one t st) = pending st - 1"
  by (simp_all add: process_one_def Let_def)

lemma process_one_heap [simp]:
  "heap (process_one t st) = (heap st)(t := (heap st t)\<lparr>state := PROCESSED\<rparr>)"
  by (simp add: process_one_def Let_def)

lemma process_one_calls [simp]:
  "initiator_calls (process_one t st) =
     initiator_calls st @ [if truthy (result (heap st t)) then Commit t else Abort t]"
  "results_commit (process_one t st) =
     results_commit st @ (if truthy (result (heap st t)) then [result (heap st t)] else [])"
  "results_abort (process_one t st) =
     results_abort st @ (if truthy (result (heap st t)) then [] else [result (heap st t)])"
  by (simp_all add: process_one_def Let_def)

lemma process_loop_frame [simp]:
  "transfers (process_loop ts st) = transfers st"
  "transfers_sent (process_loop ts st) = transfers_sent st"
  "responder_calls (process_loop ts st) = responder_calls st"
  "next_ref (process_loop ts st) = next_ref st"
  "keep_running (process_loop ts st) = keep_running st"
  by (induction ts arbitrary: st; simp)+

lemma process_loop_spec:
  "\<exists>cs. distinct cs \<and> set cs = {t \<in> set ts. state (heap st t) = COMPLETED}
     \<and> heap (process_loop ts st) =
         (\<lambda>t. if t \<in> set cs then (heap st t)\<lparr>state := PROCESSED\<rparr> else heap st t)
     \<and> pending (process_loop ts st) = pending st - int (length cs)
     \<and> initiator_calls (process_loop ts st) =
         initiator_calls st @ map (\<lambda>t. if truthy (result (heap st t)) then Commit t else Abort t) cs
     \<and> results_commit (process_loop ts st) =
         results_commit st @ map (\<lambda>t. result (heap st t)) (filter (\<lambda>t. truthy (result (heap st t))) cs)
     \<and> results_abort (process_loop ts st) =
         results_abort st @ map (\<lambda>t. result (heap st t)) (filter (\<lambda>t. \<not> truthy (result (heap st t))) cs)"
proof (induction ts arbitrary: st)
  case Nil
  show ?case by (rule exI [of _ "[]"]) simp
next
  case (Cons t ts)
  show ?case
  proof (cases "state (heap st t) = COMPLETED")
    case False
    from Cons.IH [of st] obtain cs where cs: "distinct cs"
      "set cs = {t \<in> set ts. state (heap st t) = COMPLETED}"
      "heap (process_loop ts st) =
         (\<lambda>t. if t \<in> set cs then (heap st t)\<lparr>state := PROCESSED\<rparr> else heap st t)"
      "pending (process_loop ts st) = pending st - int (length cs)"
      "initiator_calls (process_loop ts st) =
         initiator_calls st @ map (\<lambda>t. if truthy (result (heap st t)) then Commit t else Abort t) cs"
      "results_commit (process_loop ts st) =
         results_commit st @ map (\<lambda>t. result (heap st t)) (filter (\<lambda>t. truthy (result (heap st t))) cs)"
      "results_abort (process_loop ts st) =
         results_abort st @ map (\<lambda>t. result (heap st t)) (filter (\<lambda>t. \<not> truthy (result (heap st t))) cs)"
      by blast
    have "set cs = {u \<in> set (t # ts). state (heap st u) = COMPLETED}"
      using False cs(2) by auto
    with cs False show ?thesis
      by (intro exI [of _ cs]) simp
  next
    case True
    let ?st1 = "process_one t st"
    from Cons.IH [of ?st1] obtain cs where cs: "distinct cs"
      "set cs = {u \<in> set ts. state (heap ?st1 u) = COMPLETED}"
      "heap (process_loop ts ?st1) =
         (\<lambda>u. if u \<in> set cs then (heap ?st1 u)\<lparr>state := PROCESSED\<rparr> else heap ?st1 u)"
      "pending (process_loop ts ?st1) = pending ?st1 - int (length cs)"
      "initiator_calls (process_loop ts ?st1) =
         initiator_calls ?st1 @ map (\<lambda>u. if truthy (result (heap ?st1 u)) then Commit u else Abort u) cs"
      "results_commit (process_loop ts ?st1) =
         results_commit ?st1 @ map (\<lambda>u. result (heap ?st1 u)) (filter (\<lambda>u. truthy (result (heap ?st1 u))) cs)"
      "results_abort (process_loop ts ?st1) =
         results_abort ?st1 @ map (\<lambda>u. result (heap ?st1 u)) (filter (\<lambda>u. \<not> truthy (result (heap ?st1 u))) cs)"
      by blast
    have notin: "t \<notin> set cs" using cs(2) by simp
    have same: "\<And>u. u \<in> set cs \<Longrightarrow> heap ?st1 u = heap st u"
      using notin by auto
    have set_eq: "set (t # cs) = {u \<in> set (t # ts). state (heap st u) = COMPLETED}"
      using True cs(2) by (auto split: if_splits)
    have m1: "map (\<lambda>u. if truthy (result (heap ?st1 u)) then Commit u else Abort u) cs
            = map (\<lambda>u. if truthy (result (heap st u)) then Commit u else Abort u) cs"
      using same by (intro map_cong) simp_all
    have f1: "filter (\<lambda>u. truthy (result (heap ?st1 u))) cs = filter (\<lambda>u. truthy (result (heap st u))) cs"
      using same by (intro filter_cong) simp_all
    have f2: "filter (\<lambda>u. \<not> truthy (result (heap ?st1 u))) cs = filter (\<lambda>u. \<not> truthy (result (heap st u))) cs"
      using same by (intro filter_cong) simp_all
    have m2: "\<And>P. map (\<lambda>u. result (heap ?st1 u)) (filter P cs) = map (\<lambda>u. result (heap st u)) (filter P cs)"
      using same by (intro map_cong) simp_all
    show ?thesis
    proof (intro exI [of _ "t # cs"] conjI)
      show "distinct (t # cs)" using cs(1) notin by simp
      show "set (t # cs) = {u \<in> set (t # ts). state (heap st u) = COMPLETED}" by (rule set_eq)
      show "heap (process_loop (t # ts) st) =
         (\<lambda>u. if u \<in> set (t # cs) then (heap st u)\<lparr>state := PROCESSED\<rparr> else heap st u)"
        using True cs(3) notin by (auto simp: fun_eq_iff)
      show "pending (process_loop (t # ts) st) = pending st - int (length (t # cs))"
        using True cs(4) by simp
      show "initiator_calls (process_loop (t # ts) st) =
         initiator_calls st @ map (\<lambda>t. if truthy (result (heap st t)) then Commit t else Abort t) (t # cs)"
        using True cs(5) m1 by simp
      show "results_commit (process_loop (t # ts) st) =
         results_commit st @ map (\<lambda>t. result (heap st t)) (filter (\<lambda>t. truthy (result (heap st t))) (t # cs))"
        using True cs(6) f1 m2 by simp
      show "results_abort (process_loop (t # ts) st) =
         results_abort st @ map (\<lambda>t. result (heap st t)) (filter (\<lambda>t. \<not> truthy (result (heap st t))) (t # cs))"
        using True cs(7) f2 m2 by simp
    qed
  qed
qed

lemma process_loop_state:
  "state (heap (process_loop ts st) t) =
     (if t \<in> set ts \<and> state (heap st t) = COMPLETED then PROCESSED else state (heap st t))"
  by (induction ts arbitrary: st) auto

section \<open>The loop of collect\<close>

lemma store_result_frame [simp]:
  "transfers (store_result t v st) = transfers st"
  "transfers_sent (store_result t v st) = transfers_sent st"
  "pending (store_result t v st) = pending st"
  "responder_calls (store_result t v st) = responder_calls st"
  "initiator_calls (store_result t v st) = initiator_calls st"
  "results_commit (store_result t v st) = results_commit st"
  "results_abort (store_result t v st) = results_abort st"
  "next_ref (store_result t v st) = next_ref st"
  "keep_running (store_result t v st) = keep_running st"
  "heap (store_result t v st) = (heap st)(t := (heap st t)\<lparr>result := v, state := COMPLETED\<rparr>)"
  by (simp_all add: store_result_def)

lemma collect_loop_frame [simp]:
  "transfers (snd (collect_loop fs ts st)) = transfers st"
  "transfers_sent (snd (collect_loop fs ts st)) = transfers_sent st"
  "pending (snd (collect_loop fs ts st)) = pending st"
  "responder_calls (snd (collect_loop fs ts st)) = responder_calls st"
  "initiator_calls (snd (collect_loop fs ts st)) = initiator_calls st"
  "results_commit (snd (collect_loop fs ts st)) = results_commit st"
  "results_abort (snd (collect_loop fs ts st)) = results_abort st"
  "next_ref (snd (collect_loop fs ts st)) = next_ref st"
  "keep_running (snd (collect_loop fs ts st)) = keep_running st"
  by (induction ts arbitrary: st; simp split: option.splits fstatus.splits)+

text \<open>An object is either left as it was or, if it was SENT with a task that has
  finished with a value, has got that value and the state COMPLETED.\<close>

lemma collect_loop_heap:
  "heap (snd (collect_loop fs ts st)) t = heap st t
   \<or> (t \<in> set ts \<and> state (heap st t) = SENT
       \<and> (\<exists>f v. future (heap st t) = Some f \<and> fs f = Done v
             \<and> heap (snd (collect_loop fs ts st)) t = (heap st t)\<lparr>result := v, state := COMPLETED\<rparr>))"
proof (induction ts arbitrary: st)
  case Nil
  show ?case by simp
next
  case (Cons a ts)
  show ?case
  proof (cases "state (heap st a) = SENT")
    case False
    then show ?thesis using Cons.IH [of st] by auto
  next
    case True
    show ?thesis
    proof (cases "future (heap st a)")
      case None
      then show ?thesis using True by simp
    next
      case (Some f)
      show ?thesis
      proof (cases "fs f")
        case Pending
        then show ?thesis using True Some Cons.IH [of st] by auto
      next
        case (Failed e)
        then show ?thesis using True Some by simp
      next
        case (Done v)
        let ?st1 = "store_result a v st"
        have run: "collect_loop fs (a # ts) st = collect_loop fs ts ?st1"
          using True Some Done by simp
        show ?thesis
        proof (cases "t = a")
          case True
          have "state (heap ?st1 a) \<noteq> SENT" by simp
          with Cons.IH [of ?st1] True
          have "heap (snd (collect_loop fs ts ?st1)) a = heap ?st1 a" by auto
          then show ?thesis using run \<open>t = a\<close> \<open>state (heap st a) = SENT\<close> Some Done by simp
        next
          case False
          then have "heap ?st1 t = heap st t" by simp
          then show ?thesis using run Cons.IH [of ?st1] False by auto
        qed
      qed
    qed
  qed
qed

lemma collect_loop_not_SENT:
  "state (heap st t) \<noteq> SENT \<Longrightarrow> heap (snd (collect_loop fs ts st)) t = heap st t"
  using collect_loop_heap [of fs ts st t] by auto

text \<open>A failed task among the SENT transfers of the list makes the loop raise, and the
  transfer of that task is not changed.\<close>

lemma collect_loop_raises:
  "t \<in> set ts \<Longrightarrow> state (heap st t) = SENT \<Longrightarrow> future (heap st t) = Some k \<Longrightarrow>
   fs k = Failed e \<Longrightarrow> \<exists>e'. fst (collect_loop fs ts st) = Raised e'"
proof (induction ts arbitrary: st)
  case Nil
  then show ?case by simp
next
  case (Cons a ts)
  show ?case
  proof (cases "a = t")
    case True
    then show ?thesis using Cons.prems by simp
  next
    case False
    then have t: "t \<in> set ts" using Cons.prems(1) by simp
    have keep: "\<And>v. heap (store_result a v st) t = heap st t" using False by simp
    show ?thesis
      using Cons.IH [OF t Cons.prems(2) Cons.prems(3) Cons.prems(4)]
        Cons.IH [of "store_result a v st" for v] t Cons.prems keep
      by (auto split: option.splits fstatus.splits)
  qed
qed

text \<open>When the loop returns, every SENT transfer of the list whose task has finished
  with a value has been collected.\<close>

lemma collect_loop_returns:
  "fst (collect_loop fs ts st) = Returned () \<Longrightarrow> t \<in> set ts \<Longrightarrow> state (heap st t) = SENT \<Longrightarrow>
   future (heap st t) = Some f \<Longrightarrow> fs f = Done v \<Longrightarrow>
   heap (snd (collect_loop fs ts st)) t = (heap st t)\<lparr>result := v, state := COMPLETED\<rparr>"
proof (induction ts arbitrary: st)
  case Nil
  then show ?case by simp
next
  case (Cons a ts)
  show ?case
  proof (cases "a = t")
    case True
    have "collect_loop fs (a # ts) st = collect_loop fs ts (store_result t v st)"
      using True Cons.prems by simp
    moreover have "heap (snd (collect_loop fs ts (store_result t v st))) t
        = heap (store_result t v st) t"
      by (rule collect_loop_not_SENT) simp
    ultimately show ?thesis by simp
  next
    case False
    then have t: "t \<in> set ts" using Cons.prems(2) by simp
    have keep: "\<And>w. heap (store_result a w st) t = heap st t" using False by simp
    show ?thesis
      using Cons.IH [of st] Cons.IH [of "store_result a w st" for w] t Cons.prems keep
      by (auto split: option.splits fstatus.splits if_splits)
  qed
qed

lemma asyncio_wait_failed_not_blocked:
  assumes "t \<in> set (transfers_sent st)" "future (heap st t) = Some k" "fs k = Failed e"
  shows "asyncio_wait fs (futures st) \<noteq> Blocked"
proof -
  have "Some k \<in> set (futures st)"
    using assms(1,2) by (force simp: futures_def)
  then have "list_ex (\<lambda>f. case f of None \<Rightarrow> False | Some k \<Rightarrow> future_done (fs k)) (futures st)"
    using assms(3) by (auto simp: list_ex_iff intro!: bexI [of _ "Some k"])
  then show ?thesis by (auto simp: asyncio_wait_def)
qed

lemma transfer_result_frame [simp]:
  "transfers (snd (transfer_result fs st)) = transfers st"
  "transfers_sent (snd (transfer_result fs st)) = transfers_sent st"
  "pending (snd (transfer_result fs st)) = pending st"
  "responder_calls (snd (transfer_result fs st)) = responder_calls st"
  "initiator_calls (snd (transfer_result fs st)) = initiator_calls st"
  "results_commit (snd (transfer_result fs st)) = results_commit st"
  "results_abort (snd (transfer_result fs st)) = results_abort st"
  "next_ref (snd (transfer_result fs st)) = next_ref st"
  "keep_running (snd (transfer_result fs st)) = keep_running st"
  by (simp_all add: transfer_result_def split: outcome.splits)

lemma transfer_result_heap:
  "heap (snd (transfer_result fs st)) t = heap st t
   \<or> (t \<in> set (transfers_sent st) \<and> state (heap st t) = SENT
       \<and> (\<exists>f v. future (heap st t) = Some f \<and> fs f = Done v
             \<and> heap (snd (transfer_result fs st)) t = (heap st t)\<lparr>result := v, state := COMPLETED\<rparr>))"
  using collect_loop_heap [of fs "transfers_sent st" st t]
  by (simp add: transfer_result_def split: outcome.splits)

section \<open>Ingest\<close>

text \<open>
  C8. \<open>receive_transfer\<close> returns the number of transfers the Initiator's poll delivered
  and changes the engine only by appending exactly those transfers to the pool; on an
  empty poll it returns 0 and the engine is unchanged; when the poll raises, the same
  error is raised and the engine is unchanged.
\<close>

theorem receive_transfer_ingest:
  "receive_transfer (Inr ts) st = (Returned (length ts), st\<lparr>transfers := transfers st @ ts\<rparr>)
   \<and> receive_transfer (Inr []) st = (Returned 0, st)
   \<and> receive_transfer (Inl e) st = (Raised e, st)"
  by (simp add: receive_transfer_def)

section \<open>Dispatch\<close>

text \<open>
  C3, as the code has it. After \<open>send_transfer\<close>, every transfer that was in the pool with
  state READY is SENT, has a receive handle (the task of a new call of the Responder),
  has been appended to the in-flight list once and is counted in \<open>pending\<close>; no other
  object is changed. The pool list itself is left as it was: nothing is removed from it,
  and afterwards none of its transfers is READY.
\<close>

theorem send_transfer_dispatch:
  "\<exists>new. distinct new \<and> set new = {t \<in> set (transfers st). state (heap st t) = READY}
     \<and> transfers_sent (send_transfer st) = transfers_sent st @ new
     \<and> responder_calls (send_transfer st) = responder_calls st @ new
     \<and> pending (send_transfer st) = pending st + int (length new)
     \<and> (\<forall>i<length new. heap (send_transfer st) (new ! i) =
           (heap st (new ! i))\<lparr>future := Some (length (responder_calls st) + i), state := SENT\<rparr>)
     \<and> (\<forall>t. t \<notin> set new \<longrightarrow> heap (send_transfer st) t = heap st t)
     \<and> transfers (send_transfer st) = transfers st
     \<and> (\<forall>t \<in> set (transfers (send_transfer st)). state (heap (send_transfer st) t) \<noteq> READY)"
proof -
  from send_loop_spec [of "transfers st" st] obtain new where new: "distinct new"
      "set new = {t \<in> set (transfers st). state (heap st t) = READY}"
      "transfers_sent (send_loop (transfers st) st) = transfers_sent st @ new"
      "responder_calls (send_loop (transfers st) st) = responder_calls st @ new"
      "pending (send_loop (transfers st) st) = pending st + int (length new)"
      "\<forall>i<length new. heap (send_loop (transfers st) st) (new ! i) =
           (heap st (new ! i))\<lparr>future := Some (length (responder_calls st) + i), state := SENT\<rparr>"
      "\<forall>t. t \<notin> set new \<longrightarrow> heap (send_loop (transfers st) st) t = heap st t"
    by blast
  have "\<forall>t \<in> set (transfers (send_transfer st)). state (heap (send_transfer st) t) \<noteq> READY"
    by (simp add: send_transfer_def send_loop_state)
  with new show ?thesis
    unfolding send_transfer_def by (intro exI [of _ new]) simp
qed

theorem send_transfer_dispatch_witness:
  "transfers (send_transfer (exec (Receive (Inr [0, 1])) (Interledger_init fresh_store 0))) = [0, 1]
   \<and> transfers_sent (send_transfer (exec (Receive (Inr [0, 1])) (Interledger_init fresh_store 0))) = [0, 1]
   \<and> pending (send_transfer (exec (Receive (Inr [0, 1])) (Interledger_init fresh_store 0))) = 2
   \<and> state (heap (send_transfer (exec (Receive (Inr [0, 1])) (Interledger_init fresh_store 0))) 1) = SENT
   \<and> future (heap (send_transfer (exec (Receive (Inr [0, 1])) (Interledger_init fresh_store 0))) 1) = Some 1"
  using send_transfer_dispatch [of "exec (Receive (Inr [0, 1])) (Interledger_init fresh_store 0)"]
  by (simp add: send_transfer_def send_one_def receive_transfer_def Interledger_init_def
      fresh_store_def Transfer_init_def)

text \<open>
  C3 as stated fails: a transfer that has been dispatched is still in the pool, in state
  SENT, so membership in the pool does not coincide with state READY.
\<close>

theorem send_transfer_pool_counterexample:
  "state (heap (exec (Receive (Inr [0])) (Interledger_init fresh_store 0)) 0) = READY
   \<and> transfers (exec (Receive (Inr [0])) (Interledger_init fresh_store 0)) = [0]
   \<and> transfers (exec_all [Receive (Inr [0]), Send] (Interledger_init fresh_store 0)) = [0]
   \<and> state (heap (exec_all [Receive (Inr [0]), Send] (Interledger_init fresh_store 0)) 0) = SENT"
  by (simp add: send_transfer_def send_one_def receive_transfer_def Interledger_init_def
      fresh_store_def Transfer_init_def)

section \<open>Collect\<close>

text \<open>
  C1, as the code has it. When a SENT transfer of the in-flight list has a receive handle
  that finished with an exception, \<open>transfer_result\<close> does not return: it raises. The
  transfer keeps its attributes (no result is recorded, the state stays SENT), and a
  following \<open>process_result\<close> leaves it unchanged and requests neither commit nor abort
  for it.
\<close>

theorem transfer_result_failed_receive:
  assumes "t \<in> set (transfers_sent st)" and "state (heap st t) = SENT"
    and "future (heap st t) = Some k" and "fs k = Failed e"
  shows "(\<exists>e'. fst (transfer_result fs st) = Raised e')
    \<and> heap (snd (transfer_result fs st)) t = heap st t
    \<and> heap (process_result (snd (transfer_result fs st))) t = heap st t
    \<and> (\<exists>new. initiator_calls (process_result (snd (transfer_result fs st))) = initiator_calls st @ new
          \<and> t \<notin> target ` set new)"
proof -
  let ?st' = "snd (transfer_result fs st)"
  have raised: "\<exists>e'. fst (transfer_result fs st) = Raised e'"
  proof (cases "asyncio_wait fs (futures st)")
    case (Returned u)
    then show ?thesis
      using collect_loop_raises [of t "transfers_sent st" st k fs e] assms
      by (simp add: transfer_result_def)
  next
    case (Raised e')
    then show ?thesis by (simp add: transfer_result_def)
  next
    case Blocked
    then show ?thesis
      using asyncio_wait_failed_not_blocked [of t st k fs e] assms by simp
  qed
  have kept: "heap ?st' t = heap st t"
    using transfer_result_heap [of fs st t] assms(3,4) by auto
  from process_loop_spec [of "transfers_sent ?st'" ?st'] obtain cs where
    cs: "set cs = {u \<in> set (transfers_sent ?st'). state (heap ?st' u) = COMPLETED}"
      "heap (process_loop (transfers_sent ?st') ?st') =
         (\<lambda>u. if u \<in> set cs then (heap ?st' u)\<lparr>state := PROCESSED\<rparr> else heap ?st' u)"
      "initiator_calls (process_loop (transfers_sent ?st') ?st') =
         initiator_calls ?st' @ map (\<lambda>u. if truthy (result (heap ?st' u)) then Commit u else Abort u) cs"
    by blast
  have notin: "t \<notin> set cs" using cs(1) kept assms(2) by simp
  have "heap (process_result ?st') t = heap st t"
    using cs(2) notin kept by (simp add: process_result_def)
  moreover have "t \<notin> target ` set (map (\<lambda>u. if truthy (result (heap ?st' u)) then Commit u else Abort u) cs)"
    using notin by (auto split: if_splits)
  then have "\<exists>new. initiator_calls (process_result ?st') = initiator_calls st @ new
          \<and> t \<notin> target ` set new"
    using cs(3) by (simp add: process_result_def)
  ultimately show ?thesis using raised kept by blast
qed

theorem transfer_result_failed_receive_witness:
  "0 \<in> set (transfers_sent (exec_all [Receive (Inr [0]), Send] (Interledger_init fresh_store 0)))
   \<and> state (heap (exec_all [Receive (Inr [0]), Send] (Interledger_init fresh_store 0)) 0) = SENT
   \<and> future (heap (exec_all [Receive (Inr [0]), Send] (Interledger_init fresh_store 0)) 0) = Some 0
   \<and> receive_raises 0 = Failed (AdapterError ''receive failed'')
   \<and> fst (transfer_result receive_raises
          (exec_all [Receive (Inr [0]), Send] (Interledger_init fresh_store 0)))
       = Raised (AdapterError ''receive failed'')
   \<and> state (heap (process_result (snd (transfer_result receive_raises
          (exec_all [Receive (Inr [0]), Send] (Interledger_init fresh_store 0))))) 0) = SENT"
  using transfer_result_failed_receive [of 0
      "exec_all [Receive (Inr [0]), Send] (Interledger_init fresh_store 0)" 0 receive_raises
      "AdapterError ''receive failed''"]
  by (simp add: transfer_result_def asyncio_wait_def futures_def receive_raises_def
      process_result_def send_transfer_def send_one_def receive_transfer_def
      Interledger_init_def fresh_store_def Transfer_init_def)

text \<open>
  C1 as stated fails: one transfer is dispatched and its receive raises. The collect
  operation raises the same error, the result stays unset and the state SENT, and after
  finalize the Initiator has been asked nothing.
\<close>

theorem transfer_result_failed_receive_counterexample:
  "state (heap (exec_all [Receive (Inr [0]), Send] (Interledger_init fresh_store 0)) 0) = SENT
   \<and> future (heap (exec_all [Receive (Inr [0]), Send] (Interledger_init fresh_store 0)) 0) = Some 0
   \<and> receive_raises 0 = Failed (AdapterError ''receive failed'')
   \<and> fst (transfer_result receive_raises
          (exec_all [Receive (Inr [0]), Send] (Interledger_init fresh_store 0)))
       = Raised (AdapterError ''receive failed'')
   \<and> result (heap (exec_all [Receive (Inr [0]), Send, Result receive_raises]
          (Interledger_init fresh_store 0)) 0) = None
   \<and> state (heap (exec_all [Receive (Inr [0]), Send, Result receive_raises]
          (Interledger_init fresh_store 0)) 0) = SENT
   \<and> state (heap (exec_all [Receive (Inr [0]), Send, Result receive_raises, Process]
          (Interledger_init fresh_store 0)) 0) = SENT
   \<and> initiator_calls (exec_all [Receive (Inr [0]), Send, Result receive_raises, Process]
          (Interledger_init fresh_store 0)) = []"
  by (simp add: transfer_result_def asyncio_wait_def futures_def receive_raises_def
      process_result_def send_transfer_def send_one_def receive_transfer_def
      Interledger_init_def fresh_store_def Transfer_init_def)

text \<open>
  C2 at a state the engine reaches: transfer 0 has been received, dispatched, collected
  and finalized, transfer 1 has been dispatched and its receive is still running. The
  wait of \<open>transfer_result\<close> is over the handles of the whole in-flight list, the finished
  handle of the PROCESSED transfer 0 among them, so the operation returns although no
  SENT transfer has a completed handle, and transfer 1 is still SENT.
\<close>

theorem transfer_result_stale_handle:
  "transfers_sent (exec_all [Receive (Inr [0]), Send, Result first_done, Process,
        Receive (Inr [1]), Send] (Interledger_init fresh_store 0)) = [0, 1]
   \<and> state (heap (exec_all [Receive (Inr [0]), Send, Result first_done, Process,
        Receive (Inr [1]), Send] (Interledger_init fresh_store 0)) 0) = PROCESSED
   \<and> state (heap (exec_all [Receive (Inr [0]), Send, Result first_done, Process,
        Receive (Inr [1]), Send] (Interledger_init fresh_store 0)) 1) = SENT
   \<and> future (heap (exec_all [Receive (Inr [0]), Send, Result first_done, Process,
        Receive (Inr [1]), Send] (Interledger_init fresh_store 0)) 1) = Some 1
   \<and> first_done 1 = Pending
   \<and> fst (transfer_result first_done (exec_all [Receive (Inr [0]), Send, Result first_done,
        Process, Receive (Inr [1]), Send] (Interledger_init fresh_store 0))) = Returned ()
   \<and> state (heap (snd (transfer_result first_done (exec_all [Receive (Inr [0]), Send,
        Result first_done, Process, Receive (Inr [1]), Send] (Interledger_init fresh_store 0)))) 1)
       = SENT"
  by (simp add: transfer_result_def asyncio_wait_def futures_def first_done_def
      process_result_def process_one_def truthy_def store_result_def
      send_transfer_def send_one_def receive_transfer_def
      Interledger_init_def fresh_store_def Transfer_init_def)

text \<open>What holds of C2: when \<open>transfer_result\<close> returns, every SENT transfer of the in-flight
  list whose handle has finished with a value has that value as its result and is
  COMPLETED, and a transfer that was not SENT is unchanged.\<close>

lemma transfer_result_collects:
  assumes "fst (transfer_result fs st) = Returned ()"
  shows "t \<in> set (transfers_sent st) \<Longrightarrow> state (heap st t) = SENT \<Longrightarrow>
         future (heap st t) = Some f \<Longrightarrow> fs f = Done v \<Longrightarrow>
         heap (snd (transfer_result fs st)) t = (heap st t)\<lparr>result := v, state := COMPLETED\<rparr>"
    and "state (heap st t) \<noteq> SENT \<Longrightarrow> heap (snd (transfer_result fs st)) t = heap st t"
proof -
  have run: "transfer_result fs st = collect_loop fs (transfers_sent st) st"
    using assms by (auto simp: transfer_result_def split: outcome.splits)
  show "t \<in> set (transfers_sent st) \<Longrightarrow> state (heap st t) = SENT \<Longrightarrow>
         future (heap st t) = Some f \<Longrightarrow> fs f = Done v \<Longrightarrow>
         heap (snd (transfer_result fs st)) t = (heap st t)\<lparr>result := v, state := COMPLETED\<rparr>"
    using collect_loop_returns [of fs "transfers_sent st" st t f v] assms run by simp
  show "state (heap st t) \<noteq> SENT \<Longrightarrow> heap (snd (transfer_result fs st)) t = heap st t"
    using transfer_result_heap [of fs st t] by auto
qed

section \<open>Finalize\<close>

text \<open>
  C4. One call of \<open>process_result\<close> handles every transfer of the in-flight list that is
  COMPLETED, each once (\<open>cs\<close>): it requests commit and appends the result to
  \<open>results_commit\<close> when the result is true, requests abort and appends it to
  \<open>results_abort\<close> otherwise, sets the state to PROCESSED and takes 1 from \<open>pending\<close>.
  The operation is a function of the engine's state alone: nothing of the adapter's
  answer is awaited. Every other transfer keeps all its attributes.
\<close>

theorem process_result_finalize:
  "\<exists>cs. distinct cs \<and> set cs = {t \<in> set (transfers_sent st). state (heap st t) = COMPLETED}
     \<and> heap (process_result st) =
         (\<lambda>t. if t \<in> set cs then (heap st t)\<lparr>state := PROCESSED\<rparr> else heap st t)
     \<and> pending (process_result st) = pending st - int (length cs)
     \<and> initiator_calls (process_result st) =
         initiator_calls st @ map (\<lambda>t. if truthy (result (heap st t)) then Commit t else Abort t) cs
     \<and> results_commit (process_result st) =
         results_commit st @ map (\<lambda>t. result (heap st t)) (filter (\<lambda>t. truthy (result (heap st t))) cs)
     \<and> results_abort (process_result st) =
         results_abort st @ map (\<lambda>t. result (heap st t)) (filter (\<lambda>t. \<not> truthy (result (heap st t))) cs)
     \<and> transfers (process_result st) = transfers st
     \<and> transfers_sent (process_result st) = transfers_sent st
     \<and> responder_calls (process_result st) = responder_calls st"
  using process_loop_spec [of "transfers_sent st" st]
  unfolding process_result_def by simp

theorem process_result_finalize_witness:
  "initiator_calls (exec_all [Receive (Inr [0, 1]), Send, Result mixed_batch, Process]
        (Interledger_init fresh_store 0)) = [Commit 0, Abort 1]
   \<and> results_commit (exec_all [Receive (Inr [0, 1]), Send, Result mixed_batch, Process]
        (Interledger_init fresh_store 0)) = [Some True]
   \<and> results_abort (exec_all [Receive (Inr [0, 1]), Send, Result mixed_batch, Process]
        (Interledger_init fresh_store 0)) = [Some False]
   \<and> pending (exec_all [Receive (Inr [0, 1]), Send, Result mixed_batch]
        (Interledger_init fresh_store 0)) = 2
   \<and> pending (exec_all [Receive (Inr [0, 1]), Send, Result mixed_batch, Process]
        (Interledger_init fresh_store 0)) = 0
   \<and> state (heap (exec_all [Receive (Inr [0, 1]), Send, Result mixed_batch, Process]
        (Interledger_init fresh_store 0)) 1) = PROCESSED"
  using process_result_finalize [of "exec_all [Receive (Inr [0, 1]), Send, Result mixed_batch]
        (Interledger_init fresh_store 0)"]
  by (simp add: transfer_result_def asyncio_wait_def futures_def mixed_batch_def
      process_result_def process_one_def truthy_def store_result_def
      send_transfer_def send_one_def receive_transfer_def
      Interledger_init_def fresh_store_def Transfer_init_def)

section \<open>Recovery\<close>

text \<open>The two loops of the state-aware constructor allocate one object per asset id at
  consecutive addresses, starting at the allocation pointer.\<close>

lemma restore_ready_loop_frame [simp]:
  "next_ref (snd (restore_ready_loop ids acc st)) = next_ref st + length ids"
  "transfers (snd (restore_ready_loop ids acc st)) = transfers st"
  "transfers_sent (snd (restore_ready_loop ids acc st)) = transfers_sent st"
  "pending (snd (restore_ready_loop ids acc st)) = pending st"
  "keep_running (snd (restore_ready_loop ids acc st)) = keep_running st"
  "results_abort (snd (restore_ready_loop ids acc st)) = results_abort st"
  "results_commit (snd (restore_ready_loop ids acc st)) = results_commit st"
  "responder_calls (snd (restore_ready_loop ids acc st)) = responder_calls st"
  "initiator_calls (snd (restore_ready_loop ids acc st)) = initiator_calls st"
  by (induction ids arbitrary: acc st; simp add: new_Transfer_def)+

lemma restore_ready_loop_refs:
  "fst (restore_ready_loop ids acc st) = acc @ [next_ref st ..< next_ref st + length ids]"
  by (induction ids arbitrary: acc st) (simp_all add: new_Transfer_def upt_conv_Cons del: upt_Suc)

lemma restore_ready_loop_heap:
  "heap (snd (restore_ready_loop ids acc st)) r =
     (if next_ref st \<le> r \<and> r < next_ref st + length ids
      then \<lparr>future = None, result = None, state = READY,
            data = Some [''assetId'' \<mapsto> ids ! (r - next_ref st)]\<rparr>
      else heap st r)"
proof (induction ids arbitrary: acc st)
  case Nil
  show ?case by auto
next
  case (Cons i ids)
  show ?case
  proof (cases "r = next_ref st")
    case True
    then show ?thesis
      by (simp add: Cons.IH [unfolded True] new_Transfer_def Transfer_init_def)
  next
    case False
    have "next_ref st < r \<Longrightarrow> r - next_ref st = Suc (r - Suc (next_ref st))"
      by arith
    then have "next_ref st < r \<Longrightarrow> (i # ids) ! (r - next_ref st) = ids ! (r - Suc (next_ref st))"
      by simp
    then show ?thesis using False
      by (auto simp: Cons.IH new_Transfer_def)
  qed
qed

lemma restore_sent_loop_frame [simp]:
  "next_ref (snd (restore_sent_loop ids acc st)) = next_ref st + length ids"
  "transfers (snd (restore_sent_loop ids acc st)) = transfers st"
  "transfers_sent (snd (restore_sent_loop ids acc st)) = transfers_sent st"
  "pending (snd (restore_sent_loop ids acc st)) = pending st"
  "keep_running (snd (restore_sent_loop ids acc st)) = keep_running st"
  "results_abort (snd (restore_sent_loop ids acc st)) = results_abort st"
  "results_commit (snd (restore_sent_loop ids acc st)) = results_commit st"
  "responder_calls (snd (restore_sent_loop ids acc st)) = responder_calls st"
  "initiator_calls (snd (restore_sent_loop ids acc st)) = initiator_calls st"
  by (induction ids arbitrary: acc st; simp add: new_Transfer_def)+

lemma restore_sent_loop_refs:
  "fst (restore_sent_loop ids acc st) = acc @ [next_ref st ..< next_ref st + length ids]"
  by (induction ids arbitrary: acc st) (simp_all add: new_Transfer_def upt_conv_Cons del: upt_Suc)

lemma restore_sent_loop_heap:
  "heap (snd (restore_sent_loop ids acc st)) r =
     (if next_ref st \<le> r \<and> r < next_ref st + length ids
      then \<lparr>future = None, result = Some True, state = COMPLETED,
            data = Some [''assetId'' \<mapsto> ids ! (r - next_ref st)]\<rparr>
      else heap st r)"
proof (induction ids arbitrary: acc st)
  case Nil
  show ?case by auto
next
  case (Cons i ids)
  show ?case
  proof (cases "r = next_ref st")
    case True
    then show ?thesis
      by (simp add: Cons.IH [unfolded True] new_Transfer_def Transfer_init_def)
  next
    case False
    have "next_ref st < r \<Longrightarrow> r - next_ref st = Suc (r - Suc (next_ref st))"
      by arith
    then have "next_ref st < r \<Longrightarrow> (i # ids) ! (r - next_ref st) = ids ! (r - Suc (next_ref st))"
      by simp
    then show ?thesis using False
      by (auto simp: Cons.IH new_Transfer_def)
  qed
qed

text \<open>The engine the state-aware constructor builds, attribute by attribute.\<close>

lemma StateInterledger_init_lists:
  "transfers (StateInterledger_init order iq rq h n) =
     [n ..< n + length (set_intersection_list order (iq TRANSFER_OUT) (rq NOT_HERE))]"
  "transfers_sent (StateInterledger_init order iq rq h n) =
     [n + length (set_intersection_list order (iq TRANSFER_OUT) (rq NOT_HERE)) ..<
      n + length (set_intersection_list order (iq TRANSFER_OUT) (rq NOT_HERE))
        + length (set_intersection_list order (iq TRANSFER_OUT) (rq HERE))]"
  "pending (StateInterledger_init order iq rq h n) =
     int (length (set_intersection_list order (iq TRANSFER_OUT) (rq HERE)))"
  "responder_calls (StateInterledger_init order iq rq h n) = []"
  "initiator_calls (StateInterledger_init order iq rq h n) = []"
  "results_commit (StateInterledger_init order iq rq h n) = []"
  "results_abort (StateInterledger_init order iq rq h n) = []"
  by (simp_all add: StateInterledger_init_def restore_pending_transfers_ready_def
      restore_pending_transfers_sent_def Interledger_init_def Let_def
      split_beta restore_ready_loop_refs restore_sent_loop_refs)

lemma StateInterledger_init_heap:
  "heap (StateInterledger_init order iq rq h n) r =
     (let ready = set_intersection_list order (iq TRANSFER_OUT) (rq NOT_HERE);
          sent = set_intersection_list order (iq TRANSFER_OUT) (rq HERE)
      in if n \<le> r \<and> r < n + length ready
         then \<lparr>future = None, result = None, state = READY,
               data = Some [''assetId'' \<mapsto> ready ! (r - n)]\<rparr>
         else if n + length ready \<le> r \<and> r < n + length ready + length sent
         then \<lparr>future = None, result = Some True, state = COMPLETED,
               data = Some [''assetId'' \<mapsto> sent ! (r - (n + length ready))]\<rparr>
         else h r)"
  by (simp add: StateInterledger_init_def restore_pending_transfers_ready_def
      restore_pending_transfers_sent_def Interledger_init_def Let_def
      split_beta restore_ready_loop_heap restore_sent_loop_heap)

lemma set_intersection_list_perm:
  assumes "\<And>xs. mset (order xs) = mset xs"
  shows "distinct (set_intersection_list order a b)"
    and "set (set_intersection_list order a b) = set a \<inter> set b"
proof -
  let ?l = "remdups (filter (\<lambda>x. x \<in> set b) a)"
  have m: "mset (order ?l) = mset ?l" by (rule assms)
  have "distinct ?l" by simp
  then show "distinct (set_intersection_list order a b)"
    using m mset_eq_imp_distinct_iff unfolding set_intersection_list_def by blast
  have "set (order ?l) = set ?l" using m by (rule mset_eq_setD)
  then show "set (set_intersection_list order a b) = set a \<inter> set b"
    unfolding set_intersection_list_def by auto
qed

lemma StateInterledger_init_pool_objects:
  "map (heap (StateInterledger_init order iq rq h n)) (transfers (StateInterledger_init order iq rq h n))
   = map (\<lambda>i. \<lparr>future = None, result = None, state = READY, data = Some [''assetId'' \<mapsto> i]\<rparr>)
       (set_intersection_list order (iq TRANSFER_OUT) (rq NOT_HERE))"
  by (rule nth_equalityI)
     (simp_all add: StateInterledger_init_lists StateInterledger_init_heap Let_def)

lemma StateInterledger_init_inflight_objects:
  "map (heap (StateInterledger_init order iq rq h n))
       (transfers_sent (StateInterledger_init order iq rq h n))
   = map (\<lambda>i. \<lparr>future = None, result = Some True, state = COMPLETED,
                data = Some [''assetId'' \<mapsto> i]\<rparr>)
       (set_intersection_list order (iq TRANSFER_OUT) (rq HERE))"
  by (rule nth_equalityI)
     (simp_all add: StateInterledger_init_lists StateInterledger_init_heap Let_def)

lemma exactly_one_per_id:
  assumes "distinct ids" and "map key ts = map Some ids" and "i \<in> set ids"
  shows "\<exists>!t. t \<in> set ts \<and> key t = Some i"
proof -
  have d: "distinct (map key ts)"
    using assms(1,2) by (simp add: distinct_map)
  then have inj: "inj_on key (set ts)" by (simp add: distinct_map)
  have "Some i \<in> set (map key ts)" using assms(2,3) by simp
  then obtain t where t: "t \<in> set ts" "key t = Some i" by auto
  show ?thesis
  proof (rule ex1I [of _ t])
    show "t \<in> set ts \<and> key t = Some i" using t by simp
  next
    fix u assume "u \<in> set ts \<and> key u = Some i"
    then have "u \<in> set ts" and "key u = key t" using t by simp_all
    then show "u = t" using t(1) inj by (simp add: inj_on_def)
  qed
qed

text \<open>
  C6. After state-aware construction the in-flight list holds, for the asset ids that the
  Initiator reports as TRANSFER_OUT and the Responder as HERE (each id once, \<open>ids\<close>), one
  new transfer per id with that \<open>assetId\<close>, state COMPLETED and result true, and nothing
  else: for every such id exactly one transfer of the list carries it. \<open>pending\<close>, 0 after
  the base constructor, is the number of such ids. The hypothesis says that \<open>order\<close>
  rearranges a list, as listing a set does.
\<close>

theorem restore_inflight:
  fixes order :: "'a list \<Rightarrow> 'a list" and iq rq h n
  assumes perm: "\<And>xs. mset (order xs) = mset xs"
  defines "st \<equiv> StateInterledger_init order iq rq h n"
  defines "ids \<equiv> set_intersection_list order (iq TRANSFER_OUT) (rq HERE)"
  shows "distinct ids \<and> set ids = set (iq TRANSFER_OUT) \<inter> set (rq HERE)
    \<and> distinct (transfers_sent st)
    \<and> map (heap st) (transfers_sent st) =
        map (\<lambda>i. \<lparr>future = None, result = Some True, state = COMPLETED,
                   data = Some [''assetId'' \<mapsto> i]\<rparr>) ids
    \<and> (\<forall>i \<in> set (iq TRANSFER_OUT) \<inter> set (rq HERE).
          \<exists>!t. t \<in> set (transfers_sent st) \<and> assetId (heap st t) = Some i)
    \<and> pending st = int (card (set (iq TRANSFER_OUT) \<inter> set (rq HERE)))"
proof -
  have d: "distinct ids" and s: "set ids = set (iq TRANSFER_OUT) \<inter> set (rq HERE)"
    unfolding ids_def using set_intersection_list_perm [of order, OF perm] by blast+
  have objs: "map (heap st) (transfers_sent st) =
        map (\<lambda>i. \<lparr>future = None, result = Some True, state = COMPLETED,
                   data = Some [''assetId'' \<mapsto> i]\<rparr>) ids"
    unfolding st_def ids_def by (rule StateInterledger_init_inflight_objects)
  have "map assetId (map (heap st) (transfers_sent st)) = map Some ids"
    unfolding objs by (simp add: assetId_def)
  then have keys: "map (\<lambda>t. assetId (heap st t)) (transfers_sent st) = map Some ids"
    by (simp add: comp_def)
  have one: "\<forall>i \<in> set (iq TRANSFER_OUT) \<inter> set (rq HERE).
          \<exists>!t. t \<in> set (transfers_sent st) \<and> assetId (heap st t) = Some i"
    using exactly_one_per_id [OF d keys] s by blast
  have "distinct (transfers_sent st)"
    unfolding st_def by (simp add: StateInterledger_init_lists)
  moreover have "pending st = int (card (set (iq TRANSFER_OUT) \<inter> set (rq HERE)))"
    using d s unfolding st_def ids_def
    by (simp add: StateInterledger_init_lists distinct_card [symmetric])
  ultimately show ?thesis using d s objs one by blast
qed

theorem restore_inflight_witness:
  "(\<forall>xs :: nat list. mset ((\<lambda>l. l) xs) = mset xs)
   \<and> set (example_initiator TRANSFER_OUT) \<inter> set (example_responder HERE) = {1}
   \<and> transfers_sent (StateInterledger_init (\<lambda>l. l) example_initiator example_responder fresh_store 0)
       = [1]
   \<and> heap (StateInterledger_init (\<lambda>l. l) example_initiator example_responder fresh_store 0) 1
       = \<lparr>future = None, result = Some True, state = COMPLETED, data = Some [''assetId'' \<mapsto> 1]\<rparr>
   \<and> pending (StateInterledger_init (\<lambda>l. l) example_initiator example_responder fresh_store 0) = 1"
  using restore_inflight [of "\<lambda>l. l" example_initiator example_responder fresh_store 0]
  by (simp add: StateInterledger_init_def restore_pending_transfers_ready_def
      restore_pending_transfers_sent_def set_intersection_list_def new_Transfer_def
      Interledger_init_def example_initiator_def example_responder_def fresh_store_def
      Transfer_init_def Let_def)

text \<open>
  C7. After state-aware construction the pool holds, for the asset ids that the Initiator
  reports as TRANSFER_OUT and the Responder as NOT_HERE (each id once), one new transfer
  per id with that \<open>assetId\<close> and state READY, and nothing else. For TRANSFER_OUT = x, y
  and NOT_HERE = y, z (x and z different assets) the pool holds exactly one transfer,
  READY, with asset id y.
\<close>

theorem restore_pool:
  fixes order :: "'a list \<Rightarrow> 'a list" and iq rq h n
  assumes perm: "\<And>xs. mset (order xs) = mset xs"
  defines "st \<equiv> StateInterledger_init order iq rq h n"
  defines "ids \<equiv> set_intersection_list order (iq TRANSFER_OUT) (rq NOT_HERE)"
  shows "distinct ids \<and> set ids = set (iq TRANSFER_OUT) \<inter> set (rq NOT_HERE)
    \<and> distinct (transfers st)
    \<and> map (heap st) (transfers st) =
        map (\<lambda>i. \<lparr>future = None, result = None, state = READY,
                   data = Some [''assetId'' \<mapsto> i]\<rparr>) ids
    \<and> (\<forall>i \<in> set (iq TRANSFER_OUT) \<inter> set (rq NOT_HERE).
          \<exists>!t. t \<in> set (transfers st) \<and> assetId (heap st t) = Some i)
    \<and> (iq TRANSFER_OUT = [x, y] \<and> rq NOT_HERE = [y, z] \<and> x \<noteq> z \<longrightarrow>
          map (heap st) (transfers st) =
            [\<lparr>future = None, result = None, state = READY, data = Some [''assetId'' \<mapsto> y]\<rparr>])"
proof -
  have d: "distinct ids" and s: "set ids = set (iq TRANSFER_OUT) \<inter> set (rq NOT_HERE)"
    unfolding ids_def using set_intersection_list_perm [of order, OF perm] by blast+
  have objs: "map (heap st) (transfers st) =
        map (\<lambda>i. \<lparr>future = None, result = None, state = READY,
                   data = Some [''assetId'' \<mapsto> i]\<rparr>) ids"
    unfolding st_def ids_def by (rule StateInterledger_init_pool_objects)
  have "map assetId (map (heap st) (transfers st)) = map Some ids"
    unfolding objs by (simp add: assetId_def)
  then have keys: "map (\<lambda>t. assetId (heap st t)) (transfers st) = map Some ids"
    by (simp add: comp_def)
  have one: "\<forall>i \<in> set (iq TRANSFER_OUT) \<inter> set (rq NOT_HERE).
          \<exists>!t. t \<in> set (transfers st) \<and> assetId (heap st t) = Some i"
    using exactly_one_per_id [OF d keys] s by blast
  have dt: "distinct (transfers st)"
    unfolding st_def by (simp add: StateInterledger_init_lists)
  have ex: "iq TRANSFER_OUT = [x, y] \<and> rq NOT_HERE = [y, z] \<and> x \<noteq> z \<longrightarrow>
          map (heap st) (transfers st) =
            [\<lparr>future = None, result = None, state = READY, data = Some [''assetId'' \<mapsto> y]\<rparr>]"
  proof (intro impI)
    assume a: "iq TRANSFER_OUT = [x, y] \<and> rq NOT_HERE = [y, z] \<and> x \<noteq> z"
    then have "remdups (filter (\<lambda>a. a \<in> set (rq NOT_HERE)) (iq TRANSFER_OUT)) = [y]"
      by auto
    then have "mset ids = {#y#}"
      unfolding ids_def set_intersection_list_def using perm by simp
    then have "ids = [y]" by simp
    then show "map (heap st) (transfers st) =
            [\<lparr>future = None, result = None, state = READY, data = Some [''assetId'' \<mapsto> y]\<rparr>]"
      using objs by simp
  qed
  show ?thesis using d s objs one dt ex by blast
qed

theorem restore_pool_witness:
  "(\<forall>xs :: nat list. mset ((\<lambda>l. l) xs) = mset xs)
   \<and> example_initiator TRANSFER_OUT = [1, 2] \<and> example_responder NOT_HERE = [2, 3]
   \<and> (1 :: nat) \<noteq> 3
   \<and> set (example_initiator TRANSFER_OUT) \<inter> set (example_responder NOT_HERE) = {2}
   \<and> transfers (StateInterledger_init (\<lambda>l. l) example_initiator example_responder fresh_store 0)
       = [0]
   \<and> map (heap (StateInterledger_init (\<lambda>l. l) example_initiator example_responder fresh_store 0))
        (transfers (StateInterledger_init (\<lambda>l. l) example_initiator example_responder
           fresh_store 0))
       = [\<lparr>future = None, result = None, state = READY, data = Some [''assetId'' \<mapsto> 2]\<rparr>]"
  using restore_pool [where order = "\<lambda>l. l" and iq = example_initiator and rq = example_responder
      and h = fresh_store and n = 0 and x = 1 and y = 2 and z = 3]
  by (simp add: StateInterledger_init_def restore_pending_transfers_ready_def
      restore_pending_transfers_sent_def set_intersection_list_def new_Transfer_def
      Interledger_init_def example_initiator_def example_responder_def fresh_store_def
      Transfer_init_def Let_def)

section \<open>Invariants of a run\<close>

subsection \<open>The count of pending transfers\<close>

lemma pending_send_one:
  assumes "pending_counts_inflight st" and "state (heap st t) = READY"
  shows "pending_counts_inflight (send_one t st)"
proof -
  let ?A = "{u \<in> set (transfers_sent st). state (heap st u) = SENT \<or> state (heap st u) = COMPLETED}"
  have "{u \<in> set (transfers_sent (send_one t st)).
          state (heap (send_one t st) u) = SENT \<or> state (heap (send_one t st) u) = COMPLETED}
        = insert t ?A"
    using assms(2) by auto
  moreover have "t \<notin> ?A" using assms(2) by simp
  moreover have "finite ?A" by simp
  ultimately show ?thesis
    using assms(1) by (simp add: pending_counts_inflight_def)
qed

lemma pending_send_loop:
  "pending_counts_inflight st \<Longrightarrow> pending_counts_inflight (send_loop ts st)"
  by (induction ts arbitrary: st) (simp_all add: pending_send_one)

lemma pending_store_result:
  assumes "pending_counts_inflight st" and "state (heap st t) = SENT"
  shows "pending_counts_inflight (store_result t v st)"
proof -
  have "{u \<in> set (transfers_sent (store_result t v st)).
          state (heap (store_result t v st) u) = SENT
          \<or> state (heap (store_result t v st) u) = COMPLETED}
        = {u \<in> set (transfers_sent st). state (heap st u) = SENT \<or> state (heap st u) = COMPLETED}"
    using assms(2) by auto
  then show ?thesis
    using assms(1) by (simp add: pending_counts_inflight_def)
qed

lemma pending_collect_loop:
  "pending_counts_inflight st \<Longrightarrow> pending_counts_inflight (snd (collect_loop fs ts st))"
  by (induction ts arbitrary: st)
     (auto simp: pending_store_result split: option.splits fstatus.splits)

lemma pending_transfer_result:
  "pending_counts_inflight st \<Longrightarrow> pending_counts_inflight (snd (transfer_result fs st))"
  by (simp add: transfer_result_def pending_collect_loop split: outcome.splits)

lemma pending_process_one:
  assumes "pending_counts_inflight st" and "state (heap st t) = COMPLETED"
    and "t \<in> set (transfers_sent st)"
  shows "pending_counts_inflight (process_one t st)"
proof -
  let ?A = "{u \<in> set (transfers_sent st). state (heap st u) = SENT \<or> state (heap st u) = COMPLETED}"
  let ?B = "{u \<in> set (transfers_sent (process_one t st)).
          state (heap (process_one t st) u) = SENT \<or> state (heap (process_one t st) u) = COMPLETED}"
  have eq: "?B = ?A - {t}" by auto
  have tin: "t \<in> ?A" using assms(2,3) by simp
  have fin: "finite ?A" by simp
  have "card ?A = Suc (card (?A - {t}))" using fin tin by (rule card.remove)
  then have "int (card ?B) = int (card ?A) - 1" unfolding eq by simp
  then show ?thesis
    using assms(1) by (simp add: pending_counts_inflight_def)
qed

lemma pending_process_loop:
  "pending_counts_inflight st \<Longrightarrow> set ts \<subseteq> set (transfers_sent st) \<Longrightarrow>
   pending_counts_inflight (process_loop ts st)"
  by (induction ts arbitrary: st) (simp_all add: pending_process_one)

lemma pending_exec:
  "pending_counts_inflight st \<Longrightarrow> pending_counts_inflight (exec x st)"
proof (cases x)
  case (Receive poll)
  assume "pending_counts_inflight st"
  then show ?thesis using Receive
    by (cases poll) (simp_all add: receive_transfer_def pending_counts_inflight_def)
next
  case Send
  assume "pending_counts_inflight st"
  then show ?thesis using Send by (simp add: send_transfer_def pending_send_loop)
next
  case (Result fs)
  assume "pending_counts_inflight st"
  then show ?thesis using Result by (simp add: pending_transfer_result)
next
  case Process
  assume "pending_counts_inflight st"
  then show ?thesis using Process by (simp add: process_result_def pending_process_loop)
next
  case Stop
  assume "pending_counts_inflight st"
  then show ?thesis using Stop by (simp add: stop_def pending_counts_inflight_def)
qed

lemma pending_exec_all:
  "pending_counts_inflight st \<Longrightarrow> pending_counts_inflight (exec_all xs st)"
  by (induction xs arbitrary: st) (simp_all add: pending_exec)

lemma pending_Interledger_init: "pending_counts_inflight (Interledger_init h n)"
  by (simp add: pending_counts_inflight_def Interledger_init_def)

lemma pending_StateInterledger_init:
  "pending_counts_inflight (StateInterledger_init order iq rq h n)"
proof -
  let ?st = "StateInterledger_init order iq rq h n"
  have "\<forall>t \<in> set (transfers_sent ?st). state (heap ?st t) = COMPLETED"
    by (auto simp: StateInterledger_init_lists StateInterledger_init_heap Let_def)
  then have "{t \<in> set (transfers_sent ?st). state (heap ?st t) = SENT \<or> state (heap ?st t) = COMPLETED}
      = set (transfers_sent ?st)"
    by auto
  moreover have "card (set (transfers_sent ?st)) = length (transfers_sent ?st)"
    by (rule distinct_card) (simp add: StateInterledger_init_lists)
  ultimately show ?thesis
    by (simp add: pending_counts_inflight_def StateInterledger_init_lists)
qed

lemma wf_send_loop: "inflight_wf st \<Longrightarrow> inflight_wf (send_loop ts st)"
proof (induction ts arbitrary: st)
  case Nil
  then show ?case by simp
next
  case (Cons t ts)
  have "state (heap st t) = READY \<Longrightarrow> inflight_wf (send_one t st)"
    using Cons.prems by (auto simp: inflight_wf_def)
  then show ?case using Cons by simp
qed

lemma wf_collect_loop: "inflight_wf st \<Longrightarrow> inflight_wf (snd (collect_loop fs ts st))"
proof (induction ts arbitrary: st)
  case Nil
  then show ?case by simp
next
  case (Cons t ts)
  have "\<And>v. inflight_wf (store_result t v st)"
    using Cons.prems by (auto simp: inflight_wf_def)
  then show ?case using Cons by (auto split: option.splits fstatus.splits)
qed

lemma wf_process_loop: "inflight_wf st \<Longrightarrow> inflight_wf (process_loop ts st)"
proof (induction ts arbitrary: st)
  case Nil
  then show ?case by simp
next
  case (Cons t ts)
  have "inflight_wf (process_one t st)"
    using Cons.prems by (auto simp: inflight_wf_def)
  then show ?case using Cons by simp
qed

lemma wf_exec: "inflight_wf st \<Longrightarrow> inflight_wf (exec x st)"
proof (cases x)
  case (Receive poll)
  assume "inflight_wf st"
  then show ?thesis using Receive
    by (cases poll) (simp_all add: receive_transfer_def inflight_wf_def)
next
  case Send
  assume "inflight_wf st"
  then show ?thesis using Send by (simp add: send_transfer_def wf_send_loop)
next
  case (Result fs)
  assume "inflight_wf st"
  then show ?thesis using Result
    by (simp add: transfer_result_def wf_collect_loop split: outcome.splits)
next
  case Process
  assume "inflight_wf st"
  then show ?thesis using Process by (simp add: process_result_def wf_process_loop)
next
  case Stop
  assume "inflight_wf st"
  then show ?thesis using Stop by (simp add: stop_def inflight_wf_def)
qed

lemma wf_exec_all: "inflight_wf st \<Longrightarrow> inflight_wf (exec_all xs st)"
  by (induction xs arbitrary: st) (simp_all add: wf_exec)

lemma wf_Interledger_init: "inflight_wf (Interledger_init h n)"
  by (simp add: inflight_wf_def Interledger_init_def)

lemma wf_StateInterledger_init: "inflight_wf (StateInterledger_init order iq rq h n)"
  by (auto simp: inflight_wf_def StateInterledger_init_lists StateInterledger_init_heap Let_def)

text \<open>
  C5. \<open>pending\<close> is the number of transfers of the in-flight list that are SENT or COMPLETED:
  after either constructor and after any sequence of stage operations that follows it,
  so on entry to and on exit from every iteration of the main loop; and every single
  stage operation keeps the equality, also a collect that raises half way. The in-flight
  list never holds an object twice, so the number counts list entries as well.
\<close>

theorem pending_invariant:
  "pending_counts_inflight (exec_all xs (Interledger_init h n))
   \<and> pending_counts_inflight (exec_all xs (StateInterledger_init order iq rq h n))
   \<and> distinct (transfers_sent (exec_all xs (Interledger_init h n)))
   \<and> distinct (transfers_sent (exec_all xs (StateInterledger_init order iq rq h n)))
   \<and> (pending_counts_inflight st \<longrightarrow> pending_counts_inflight (exec x st))"
proof -
  have "inflight_wf (exec_all xs (Interledger_init h n))"
    by (rule wf_exec_all) (rule wf_Interledger_init)
  moreover have "inflight_wf (exec_all xs (StateInterledger_init order iq rq h n))"
    by (rule wf_exec_all) (rule wf_StateInterledger_init)
  moreover have "pending_counts_inflight (exec_all xs (Interledger_init h n))"
    by (rule pending_exec_all) (rule pending_Interledger_init)
  moreover have "pending_counts_inflight (exec_all xs (StateInterledger_init order iq rq h n))"
    by (rule pending_exec_all) (rule pending_StateInterledger_init)
  ultimately show ?thesis
    using pending_exec [of st x] by (simp add: inflight_wf_def)
qed

theorem pending_invariant_witness:
  "pending_counts_inflight (exec_all [Receive (Inr [0, 1]), Send, Result first_done, Process]
      (Interledger_init fresh_store 0))
   \<and> pending (exec_all [Receive (Inr [0, 1]), Send, Result first_done, Process]
      (Interledger_init fresh_store 0)) = 1
   \<and> transfers_sent (exec_all [Receive (Inr [0, 1]), Send, Result first_done, Process]
      (Interledger_init fresh_store 0)) = [0, 1]
   \<and> state (heap (exec_all [Receive (Inr [0, 1]), Send, Result first_done, Process]
      (Interledger_init fresh_store 0)) 0) = PROCESSED
   \<and> state (heap (exec_all [Receive (Inr [0, 1]), Send, Result first_done, Process]
      (Interledger_init fresh_store 0)) 1) = SENT
   \<and> pending_counts_inflight (StateInterledger_init (\<lambda>l. l) example_initiator example_responder
      fresh_store 0)
   \<and> pending (StateInterledger_init (\<lambda>l. l) example_initiator example_responder fresh_store 0) = 1"
proof -
  have a: "pending_counts_inflight (exec_all [Receive (Inr [0, 1]), Send, Result first_done, Process]
      (Interledger_init fresh_store 0))"
    using pending_invariant [of "[Receive (Inr [0, 1]), Send, Result first_done, Process]"
        fresh_store 0]
    by blast
  have b: "pending_counts_inflight (exec_all [] (StateInterledger_init (\<lambda>l. l) example_initiator
      example_responder fresh_store 0))"
    using pending_invariant [of "[]" fresh_store 0 "\<lambda>l. l" example_initiator example_responder]
    by blast
  have c: "pending (exec_all [Receive (Inr [0, 1]), Send, Result first_done, Process]
      (Interledger_init fresh_store 0)) = 1
   \<and> transfers_sent (exec_all [Receive (Inr [0, 1]), Send, Result first_done, Process]
      (Interledger_init fresh_store 0)) = [0, 1]
   \<and> state (heap (exec_all [Receive (Inr [0, 1]), Send, Result first_done, Process]
      (Interledger_init fresh_store 0)) 0) = PROCESSED
   \<and> state (heap (exec_all [Receive (Inr [0, 1]), Send, Result first_done, Process]
      (Interledger_init fresh_store 0)) 1) = SENT"
    by (simp add: transfer_result_def asyncio_wait_def futures_def first_done_def
      process_result_def process_one_def truthy_def store_result_def
      send_transfer_def send_one_def receive_transfer_def
      Interledger_init_def fresh_store_def Transfer_init_def)
  have d: "pending (StateInterledger_init (\<lambda>l. l) example_initiator example_responder
      fresh_store 0) = 1"
    by (simp add: StateInterledger_init_lists set_intersection_list_def
        example_initiator_def example_responder_def)
  show ?thesis using a b c d by simp
qed

subsection \<open>The order of the protocol states\<close>

lemma send_loop_not_READY:
  "state (heap st t) \<noteq> READY \<Longrightarrow> heap (send_loop ts st) t = heap st t"
  by (induction ts arbitrary: st) auto

lemma process_loop_not_COMPLETED:
  "state (heap st t) \<noteq> COMPLETED \<Longrightarrow> heap (process_loop ts st) t = heap st t"
  by (induction ts arbitrary: st) auto

lemma exec_state:
  "state (heap (exec x st) t) = state (heap st t)
   \<or> (state (heap st t) = READY \<and> state (heap (exec x st) t) = SENT)
   \<or> (state (heap st t) = SENT \<and> state (heap (exec x st) t) = COMPLETED)
   \<or> (state (heap st t) = COMPLETED \<and> state (heap (exec x st) t) = PROCESSED)"
proof (cases x)
  case (Receive poll)
  then show ?thesis by (cases poll) (simp_all add: receive_transfer_def)
next
  case Send
  then show ?thesis by (simp add: send_transfer_def send_loop_state)
next
  case (Result fs)
  then show ?thesis using transfer_result_heap [of fs st t] by auto
next
  case Process
  then show ?thesis by (simp add: process_result_def process_loop_state)
next
  case Stop
  then show ?thesis by (simp add: stop_def)
qed

lemma exec_PROCESSED:
  assumes "state (heap st t) = PROCESSED"
  shows "heap (exec x st) t = heap st t"
proof (cases x)
  case (Receive poll)
  then show ?thesis by (cases poll) (simp_all add: receive_transfer_def)
next
  case Send
  then show ?thesis using assms by (simp add: send_transfer_def send_loop_not_READY)
next
  case (Result fs)
  then show ?thesis using transfer_result_heap [of fs st t] assms by auto
next
  case Process
  then show ?thesis using assms by (simp add: process_result_def process_loop_not_COMPLETED)
next
  case Stop
  then show ?thesis by (simp add: stop_def)
qed

lemma exec_all_PROCESSED:
  "state (heap st t) = PROCESSED \<Longrightarrow> heap (exec_all xs st) t = heap st t"
  by (induction xs arbitrary: st) (simp_all add: exec_PROCESSED)

lemma exec_responder_calls:
  "\<exists>new. responder_calls (exec x st) = responder_calls st @ new
         \<and> transfers_sent (exec x st) = transfers_sent st @ new
         \<and> (\<forall>t \<in> set new. state (heap st t) = READY)"
proof (cases x)
  case (Receive poll)
  then show ?thesis by (cases poll) (simp_all add: receive_transfer_def)
next
  case Send
  then show ?thesis using send_loop_spec [of "transfers st" st]
    by (auto simp: send_transfer_def)
next
  case (Result fs)
  then show ?thesis by simp
next
  case Process
  then show ?thesis by (simp add: process_result_def)
next
  case Stop
  then show ?thesis by (simp add: stop_def)
qed

lemma exec_initiator_calls:
  "\<exists>new. initiator_calls (exec x st) = initiator_calls st @ new
         \<and> (\<forall>c \<in> set new. state (heap st (target c)) = COMPLETED)"
proof (cases x)
  case (Receive poll)
  then show ?thesis by (cases poll) (simp_all add: receive_transfer_def)
next
  case Send
  then show ?thesis by (simp add: send_transfer_def)
next
  case (Result fs)
  then show ?thesis by simp
next
  case Process
  then show ?thesis using process_loop_spec [of "transfers_sent st" st]
    by (auto simp: process_result_def)
next
  case Stop
  then show ?thesis by (simp add: stop_def)
qed

lemma exec_all_PROCESSED_calls:
  "state (heap st t) = PROCESSED \<Longrightarrow>
   \<exists>rs cs. responder_calls (exec_all xs st) = responder_calls st @ rs \<and> t \<notin> set rs
         \<and> initiator_calls (exec_all xs st) = initiator_calls st @ cs \<and> t \<notin> target ` set cs"
proof (induction xs arbitrary: st)
  case Nil
  show ?case by simp
next
  case (Cons x xs)
  have keep: "state (heap (exec x st) t) = PROCESSED"
    using Cons.prems by (simp add: exec_PROCESSED)
  from exec_responder_calls [of x st] obtain r1 where
    r1: "responder_calls (exec x st) = responder_calls st @ r1"
        "\<forall>u \<in> set r1. state (heap st u) = READY" by blast
  from exec_initiator_calls [of x st] obtain c1 where
    c1: "initiator_calls (exec x st) = initiator_calls st @ c1"
        "\<forall>c \<in> set c1. state (heap st (target c)) = COMPLETED" by blast
  from Cons.IH [OF keep] obtain r2 c2 where
    r2: "responder_calls (exec_all xs (exec x st)) = responder_calls (exec x st) @ r2" "t \<notin> set r2"
    and c2: "initiator_calls (exec_all xs (exec x st)) = initiator_calls (exec x st) @ c2"
      "t \<notin> target ` set c2" by blast
  have "t \<notin> set (r1 @ r2)" using r1(2) r2(2) Cons.prems by auto
  moreover have "t \<notin> target ` set (c1 @ c2)" using c1(2) c2(2) Cons.prems by auto
  ultimately show ?case
    using r1(1) r2(1) c1(1) c2(1)
    by (intro exI [of _ "r1 @ r2"] exI [of _ "c1 @ c2"]) simp
qed

lemma state_seq_hd: "\<exists>ss. state_seq xs st t = state (heap st t) # ss"
  by (cases xs) simp_all

lemma chain_from_hd: "\<exists>ss. chain_from s = s # ss"
  by (cases s) simp_all

lemma state_seq_chain:
  "prefix (remdups_adj (state_seq xs st t)) (chain_from (state (heap st t)))"
proof (induction xs arbitrary: st)
  case Nil
  show ?case using chain_from_hd [of "state (heap st t)"] by auto
next
  case (Cons x xs)
  let ?s = "state (heap st t)" and ?s' = "state (heap (exec x st) t)"
  obtain ss where ss: "state_seq xs (exec x st) t = ?s' # ss"
    using state_seq_hd by blast
  have IH: "prefix (remdups_adj (?s' # ss)) (chain_from ?s')"
    using Cons.IH [of "exec x st"] ss by simp
  show ?case
  proof (cases "?s' = ?s")
    case True
    then show ?thesis using IH ss by simp
  next
    case False
    then have step: "chain_from ?s = ?s # chain_from ?s'"
      using exec_state [of x st t] by auto
    show ?thesis using False IH ss step by simp
  qed
qed

text \<open>
  C9, as the code has it. Over any run of stage operations the states a transfer takes,
  repetitions dropped, are consecutive states of READY, SENT, COMPLETED, PROCESSED
  beginning with the state the transfer has when the run starts: a prefix of the chain
  for a transfer that starts READY, the rest of the chain from COMPLETED on for a
  transfer that recovery created in state COMPLETED. No operation moves a state backwards
  or skips a step. A PROCESSED transfer keeps all its attributes, its receive handle
  included, and no further call of the Responder or the Initiator is made for it.
\<close>

theorem state_order:
  "prefix (remdups_adj (state_seq xs st t)) (chain_from (state (heap st t)))
   \<and> (state (heap st t) = READY \<longrightarrow>
        prefix (remdups_adj (state_seq xs st t)) [READY, SENT, COMPLETED, PROCESSED])
   \<and> (state (heap (exec x st) t) = state (heap st t)
        \<or> (state (heap st t) = READY \<and> state (heap (exec x st) t) = SENT)
        \<or> (state (heap st t) = SENT \<and> state (heap (exec x st) t) = COMPLETED)
        \<or> (state (heap st t) = COMPLETED \<and> state (heap (exec x st) t) = PROCESSED))
   \<and> (state (heap st t) = PROCESSED \<longrightarrow>
        heap (exec_all xs st) t = heap st t
        \<and> (\<exists>rs cs. responder_calls (exec_all xs st) = responder_calls st @ rs \<and> t \<notin> set rs
              \<and> initiator_calls (exec_all xs st) = initiator_calls st @ cs
              \<and> t \<notin> target ` set cs))"
proof -
  have a: "prefix (remdups_adj (state_seq xs st t)) (chain_from (state (heap st t)))"
    by (rule state_seq_chain)
  then have b: "state (heap st t) = READY \<longrightarrow>
        prefix (remdups_adj (state_seq xs st t)) [READY, SENT, COMPLETED, PROCESSED]"
    by auto
  show ?thesis
    using a b exec_state [of x st t] exec_all_PROCESSED [of st t xs]
      exec_all_PROCESSED_calls [of st t xs]
    by blast
qed

theorem state_order_witness:
  "state (heap (Interledger_init fresh_store 0) 0) = READY
   \<and> remdups_adj (state_seq [Receive (Inr [0]), Send, Result first_done, Process]
        (Interledger_init fresh_store 0) 0) = [READY, SENT, COMPLETED, PROCESSED]
   \<and> prefix (remdups_adj (state_seq [Receive (Inr [0]), Send, Result first_done, Process]
        (Interledger_init fresh_store 0) 0)) [READY, SENT, COMPLETED, PROCESSED]
   \<and> state (heap (exec_all [Receive (Inr [0]), Send, Result first_done, Process]
        (Interledger_init fresh_store 0)) 0) = PROCESSED
   \<and> heap (exec_all [Receive (Inr [0, 1]), Send, Result first_done, Process]
        (exec_all [Receive (Inr [0]), Send, Result first_done, Process]
          (Interledger_init fresh_store 0))) 0
      = heap (exec_all [Receive (Inr [0]), Send, Result first_done, Process]
          (Interledger_init fresh_store 0)) 0"
proof -
  have a: "state (heap (Interledger_init fresh_store 0) 0) = READY"
    by (simp add: Interledger_init_def fresh_store_def Transfer_init_def)
  have b: "prefix (remdups_adj (state_seq [Receive (Inr [0]), Send, Result first_done, Process]
        (Interledger_init fresh_store 0) 0)) [READY, SENT, COMPLETED, PROCESSED]"
    using a state_order [of "[Receive (Inr [0]), Send, Result first_done, Process]"
        "Interledger_init fresh_store 0" 0 Stop]
    by blast
  have c: "remdups_adj (state_seq [Receive (Inr [0]), Send, Result first_done, Process]
        (Interledger_init fresh_store 0) 0) = [READY, SENT, COMPLETED, PROCESSED]"
    by (simp add: transfer_result_def asyncio_wait_def futures_def first_done_def
      process_result_def process_one_def truthy_def store_result_def
      send_transfer_def send_one_def receive_transfer_def
      Interledger_init_def fresh_store_def Transfer_init_def)
  have d: "state (heap (exec_all [Receive (Inr [0]), Send, Result first_done, Process]
        (Interledger_init fresh_store 0)) 0) = PROCESSED"
    by (simp add: transfer_result_def asyncio_wait_def futures_def first_done_def
      process_result_def process_one_def truthy_def store_result_def
      send_transfer_def send_one_def receive_transfer_def
      Interledger_init_def fresh_store_def Transfer_init_def)
  have e: "heap (exec_all [Receive (Inr [0, 1]), Send, Result first_done, Process]
        (exec_all [Receive (Inr [0]), Send, Result first_done, Process]
          (Interledger_init fresh_store 0))) 0
      = heap (exec_all [Receive (Inr [0]), Send, Result first_done, Process]
          (Interledger_init fresh_store 0)) 0"
    using d state_order [of "[Receive (Inr [0, 1]), Send, Result first_done, Process]"
        "exec_all [Receive (Inr [0]), Send, Result first_done, Process]
          (Interledger_init fresh_store 0)" 0 Stop]
    by blast
  show ?thesis using a b c d e by blast
qed

text \<open>
  C9 as stated fails for a transfer that the state-aware constructor puts into the
  in-flight list: it is created COMPLETED, so the states it takes are COMPLETED, PROCESSED,
  which is not a prefix of READY, SENT, COMPLETED, PROCESSED.
\<close>

theorem state_order_counterexample:
  "state_seq [Process]
     (StateInterledger_init (\<lambda>l. l) example_initiator example_responder fresh_store 0) 1
     = [COMPLETED, PROCESSED]
   \<and> \<not> prefix (remdups_adj (state_seq [Process]
         (StateInterledger_init (\<lambda>l. l) example_initiator example_responder fresh_store 0) 1))
       [READY, SENT, COMPLETED, PROCESSED]"
  by (simp add: StateInterledger_init_def restore_pending_transfers_ready_def
      restore_pending_transfers_sent_def set_intersection_list_def new_Transfer_def
      Interledger_init_def example_initiator_def example_responder_def fresh_store_def
      Transfer_init_def Let_def process_result_def process_one_def truthy_def)

subsection \<open>The two lists only grow\<close>

lemma exec_prefix:
  "prefix (transfers st) (transfers (exec x st))
   \<and> prefix (transfers_sent st) (transfers_sent (exec x st))"
proof (cases x)
  case (Receive poll)
  then show ?thesis by (cases poll) (simp_all add: receive_transfer_def)
next
  case Send
  then show ?thesis using exec_responder_calls [of Send st] by (auto simp: send_transfer_def)
next
  case (Result fs)
  then show ?thesis by simp
next
  case Process
  then show ?thesis by (simp add: process_result_def)
next
  case Stop
  then show ?thesis by (simp add: stop_def)
qed

lemma exec_all_prefix:
  "prefix (transfers st) (transfers (exec_all xs st))
   \<and> prefix (transfers_sent st) (transfers_sent (exec_all xs st))"
proof (induction xs arbitrary: st)
  case Nil
  show ?case by simp
next
  case (Cons x xs)
  show ?case
    using exec_prefix [of st x] Cons.IH [of "exec x st"]
    by (auto intro: prefix_order.trans)
qed

text \<open>The receive handles of the transfers the engine has dispatched, along a run.\<close>

lemma handles_receive_transfer:
  "handles_inv D (snd (receive_transfer poll st)) = handles_inv D st"
  by (cases poll)
     (simp_all add: receive_transfer_def handles_inv_def dispatched_handle_def
        cong: option.case_cong)

lemma handles_stop: "handles_inv D (stop st) = handles_inv D st"
  by (simp add: stop_def handles_inv_def dispatched_handle_def cong: option.case_cong)

lemma handles_inv_mono:
  "handles_inv D st \<Longrightarrow> (\<And>k v. D k v \<Longrightarrow> D' k v) \<Longrightarrow> handles_inv D' st"
  by (auto simp: handles_inv_def dispatched_handle_def split: option.splits)

lemma handles_send_one: "handles_inv D st \<Longrightarrow> handles_inv D (send_one t st)"
  by (auto simp: handles_inv_def dispatched_handle_def nth_append split: option.splits)

lemma handles_send_loop: "handles_inv D st \<Longrightarrow> handles_inv D (send_loop ts st)"
  by (induction ts arbitrary: st) (simp_all add: handles_send_one)

lemma handles_store_result:
  assumes "handles_inv D st" and "future (heap st t) = Some f" and "D f v"
  shows "handles_inv D (store_result t v st)"
  using assms by (auto simp: handles_inv_def dispatched_handle_def split: option.splits)

lemma handles_collect_loop:
  "handles_inv D st \<Longrightarrow> (\<And>k v. fs k = Done v \<Longrightarrow> D k v) \<Longrightarrow>
   handles_inv D (snd (collect_loop fs ts st))"
proof (induction ts arbitrary: st)
  case Nil
  then show ?case by simp
next
  case (Cons t ts)
  show ?case
  proof (cases "state (heap st t) = SENT")
    case False
    then show ?thesis using Cons by simp
  next
    case True
    show ?thesis
    proof (cases "future (heap st t)")
      case None
      then show ?thesis using True Cons.prems(1) by simp
    next
      case (Some f)
      show ?thesis
      proof (cases "fs f")
        case Pending
        then show ?thesis using True Some Cons by simp
      next
        case (Failed e)
        then show ?thesis using True Some Cons.prems(1) by simp
      next
        case (Done v)
        have "handles_inv D (store_result t v st)"
          using Cons.prems(1) Some Cons.prems(2) [OF Done] by (rule handles_store_result)
        then have "handles_inv D (snd (collect_loop fs ts (store_result t v st)))"
          using Cons.prems(2) by (rule Cons.IH)
        then show ?thesis using True Some Done by simp
      qed
    qed
  qed
qed

lemma handles_process_one:
  "handles_inv D st \<Longrightarrow> state (heap st t) = COMPLETED \<Longrightarrow> handles_inv D (process_one t st)"
  by (auto simp: handles_inv_def dispatched_handle_def split: option.splits)

lemma handles_process_loop: "handles_inv D st \<Longrightarrow> handles_inv D (process_loop ts st)"
  by (induction ts arbitrary: st) (simp_all add: handles_process_one)

lemma handles_exec:
  assumes "handles_inv D st"
  shows "handles_inv (\<lambda>k v. D k v \<or> collects x k v) (exec x st)"
proof -
  let ?D = "\<lambda>k v. D k v \<or> collects x k v"
  have up: "handles_inv ?D st"
    by (rule handles_inv_mono [OF assms]) (rule disjI1)
  show ?thesis
  proof (cases x)
    case (Receive poll)
    then show ?thesis using up by (simp add: handles_receive_transfer)
  next
    case Send
    have "handles_inv ?D (send_loop (transfers st) st)"
      using up by (rule handles_send_loop)
    then show ?thesis using Send by (simp add: send_transfer_def)
  next
    case (Result fs)
    have d: "\<And>k v. fs k = Done v \<Longrightarrow> D k v \<or> collects x k v"
      unfolding Result by simp
    have c: "handles_inv ?D (snd (collect_loop fs (transfers_sent st) st))"
      by (rule handles_collect_loop [OF up]) (rule d)
    show ?thesis
    proof (cases "asyncio_wait fs (futures st)")
      case (Returned u)
      then show ?thesis using c Result by (simp add: transfer_result_def)
    next
      case (Raised e)
      then show ?thesis using up Result by (simp add: transfer_result_def)
    next
      case Blocked
      then show ?thesis using up Result by (simp add: transfer_result_def)
    qed
  next
    case Process
    have "handles_inv ?D (process_loop (transfers_sent st) st)"
      using up by (rule handles_process_loop)
    then show ?thesis using Process by (simp add: process_result_def)
  next
    case Stop
    then show ?thesis using up by (simp add: handles_stop)
  qed
qed

lemma collected_by_Cons:
  "collected_by (x # xs) k v = (collects x k v \<or> collected_by xs k v)"
  by (simp add: collected_by_def)

lemma handles_exec_all:
  "handles_inv D st \<Longrightarrow> handles_inv (\<lambda>k v. D k v \<or> collected_by xs k v) (exec_all xs st)"
proof (induction xs arbitrary: D st)
  case Nil
  have "(\<lambda>k v. D k v \<or> collected_by [] k v) = D"
    by (simp add: collected_by_def)
  then show ?case using Nil by simp
next
  case (Cons x xs)
  let ?D1 = "\<lambda>k v. D k v \<or> collects x k v"
  have "handles_inv ?D1 (exec x st)"
    using Cons.prems by (rule handles_exec)
  then have "handles_inv (\<lambda>k v. ?D1 k v \<or> collected_by xs k v) (exec_all xs (exec x st))"
    using Cons.IH [of ?D1 "exec x st"] by blast
  moreover have "(\<lambda>k v. ?D1 k v \<or> collected_by xs k v) = (\<lambda>k v. D k v \<or> collected_by (x # xs) k v)"
    by (simp add: collected_by_Cons disj_assoc)
  ultimately show ?case by simp
qed

lemma handles_start:
  "responder_calls st = [] \<Longrightarrow> handles_inv (\<lambda>k v. False) st"
  by (simp add: handles_inv_def)

lemma dispatched_PROCESSED:
  assumes "responder_calls st0 = []" and "t \<in> set (responder_calls (exec_all ys st0))"
    and "state (heap (exec_all ys st0) t) = PROCESSED"
  shows "\<exists>k. future (heap (exec_all ys st0) t) = Some k
    \<and> k < length (responder_calls (exec_all ys st0))
    \<and> responder_calls (exec_all ys st0) ! k = t
    \<and> t \<in> set (transfers_sent (exec_all ys st0))
    \<and> collected_by ys k (result (heap (exec_all ys st0) t))"
proof -
  have "handles_inv (\<lambda>k v. False \<or> collected_by ys k v) (exec_all ys st0)"
    using handles_exec_all [of "\<lambda>k v. False" st0 ys] handles_start [of st0] assms(1) by blast
  then have "dispatched_handle (\<lambda>k v. False \<or> collected_by ys k v) (exec_all ys st0) t"
    using assms(2) by (simp add: handles_inv_def)
  then show ?thesis
    using assms(3) by (auto simp: dispatched_handle_def split: option.splits)
qed

lemma exec_all_calls_inflight:
  "\<exists>new. responder_calls (exec_all xs st) = responder_calls st @ new
         \<and> transfers_sent (exec_all xs st) = transfers_sent st @ new"
proof (induction xs arbitrary: st)
  case Nil
  show ?case by simp
next
  case (Cons x xs)
  from exec_responder_calls [of x st] obtain n1 where
    n1: "responder_calls (exec x st) = responder_calls st @ n1"
        "transfers_sent (exec x st) = transfers_sent st @ n1" by blast
  from Cons.IH [of "exec x st"] obtain n2 where
    n2: "responder_calls (exec_all xs (exec x st)) = responder_calls (exec x st) @ n2"
        "transfers_sent (exec_all xs (exec x st)) = transfers_sent (exec x st) @ n2" by blast
  show ?case using n1 n2 by (intro exI [of _ "n1 @ n2"]) simp
qed

lemma base_engine_handles:
  "transfers_sent (exec_all ys (Interledger_init h n)) = responder_calls (exec_all ys (Interledger_init h n))"
  "None \<notin> set (futures (exec_all ys (Interledger_init h n)))"
proof -
  define S where "S = exec_all ys (Interledger_init h n)"
  have r0: "responder_calls (Interledger_init h n) = []"
    and t0: "transfers_sent (Interledger_init h n) = []"
    by (simp_all add: Interledger_init_def)
  from exec_all_calls_inflight [of ys "Interledger_init h n"] obtain new where
    "responder_calls S = responder_calls (Interledger_init h n) @ new"
    "transfers_sent S = transfers_sent (Interledger_init h n) @ new"
    unfolding S_def by blast
  then have "responder_calls S = new" and "transfers_sent S = new"
    unfolding r0 t0 by simp_all
  then have eq: "transfers_sent S = responder_calls S" by simp
  have "handles_inv (\<lambda>k v. False \<or> collected_by ys k v) S"
    unfolding S_def
    using handles_exec_all [of "\<lambda>k v. False" "Interledger_init h n" ys]
      handles_start [of "Interledger_init h n"] r0 by blast
  then have all: "\<forall>t \<in> set (transfers_sent S).
      dispatched_handle (\<lambda>k v. False \<or> collected_by ys k v) S t"
    unfolding eq handles_inv_def .
  have "future (heap S t) \<noteq> None" if "t \<in> set (transfers_sent S)" for t
  proof
    assume "future (heap S t) = None"
    moreover have "dispatched_handle (\<lambda>k v. False \<or> collected_by ys k v) S t"
      using all that by blast
    ultimately show False by (simp add: dispatched_handle_def)
  qed
  then have "None \<notin> set (futures S)"
    unfolding futures_def by force
  then show "None \<notin> set (futures (exec_all ys (Interledger_init h n)))"
    unfolding S_def .
  show "transfers_sent (exec_all ys (Interledger_init h n))
      = responder_calls (exec_all ys (Interledger_init h n))"
    using eq unfolding S_def .
qed

lemma asyncio_wait_returns:
  assumes "None \<notin> set fl" and "Some k \<in> set fl" and "future_done (fs k)"
  shows "asyncio_wait fs fl = Returned ()"
proof -
  have "list_ex (\<lambda>f. case f of None \<Rightarrow> False | Some k \<Rightarrow> future_done (fs k)) fl"
    using assms(2,3) by (auto simp: list_ex_iff intro!: bexI [of _ "Some k"])
  moreover have "fl \<noteq> []" using assms(2) by auto
  ultimately show ?thesis using assms(1) by (simp add: asyncio_wait_def)
qed

lemma exec_all_append: "exec_all (ys @ xs) st = exec_all xs (exec_all ys st)"
  by (induction ys arbitrary: st) simp_all

text \<open>
  C10, as the code has it. Over any run of stage operations the pool and the in-flight
  list are only appended to: the list before is a prefix of the list after, so a transfer
  of the in-flight list that is PROCESSED is in the list after every later operation,
  unchanged. For a PROCESSED transfer that the engine has dispatched (after either
  constructor \<open>responder_calls\<close> is empty, so every call in it was made in the run), the
  handle is the task of the Responder call made for it, a collect of the run found that
  task finished with the value recorded as the transfer's result, and the handle is in
  the list of futures that every later collect builds for its wait. In an engine built
  by the base constructor every in-flight transfer has been dispatched, every entry of
  that list is a handle, and the wait returns at once when one of them has finished.
\<close>

theorem lists_append_only:
  "prefix (transfers st) (transfers (exec_all xs st))
   \<and> prefix (transfers_sent st) (transfers_sent (exec_all xs st))
   \<and> (t \<in> set (transfers_sent st) \<and> state (heap st t) = PROCESSED \<longrightarrow>
        t \<in> set (transfers_sent (exec_all xs st))
        \<and> state (heap (exec_all xs st) t) = PROCESSED
        \<and> future (heap (exec_all xs st) t) = future (heap st t)
        \<and> future (heap st t) \<in> set (futures (exec_all xs st)))
   \<and> (responder_calls st0 = [] \<and> st = exec_all ys st0
        \<and> t \<in> set (responder_calls st) \<and> state (heap st t) = PROCESSED \<longrightarrow>
        (\<exists>k. future (heap st t) = Some k
           \<and> k < length (responder_calls st) \<and> responder_calls st ! k = t
           \<and> collected_by ys k (result (heap st t))
           \<and> t \<in> set (transfers_sent (exec_all xs st))
           \<and> future (heap (exec_all xs st) t) = Some k
           \<and> Some k \<in> set (futures (exec_all xs st))))
   \<and> (st = exec_all ys (Interledger_init h n) \<longrightarrow>
        transfers_sent st = responder_calls st
        \<and> None \<notin> set (futures (exec_all xs st))
        \<and> (\<forall>k. Some k \<in> set (futures (exec_all xs st)) \<and> future_done (fs k) \<longrightarrow>
              asyncio_wait fs (futures (exec_all xs st)) = Returned ()))"
proof -
  have p: "prefix (transfers st) (transfers (exec_all xs st))"
    "prefix (transfers_sent st) (transfers_sent (exec_all xs st))"
    using exec_all_prefix [of st xs] by simp_all
  have stay: "t \<in> set (transfers_sent (exec_all xs st))
        \<and> state (heap (exec_all xs st) t) = PROCESSED
        \<and> future (heap (exec_all xs st) t) = future (heap st t)
        \<and> future (heap st t) \<in> set (futures (exec_all xs st))"
    if t: "t \<in> set (transfers_sent st)" and s: "state (heap st t) = PROCESSED"
  proof -
    have in': "t \<in> set (transfers_sent (exec_all xs st))"
      using t p(2) set_mono_prefix by blast
    have h: "heap (exec_all xs st) t = heap st t"
      using s by (rule exec_all_PROCESSED)
    have "future (heap (exec_all xs st) t) \<in> set (futures (exec_all xs st))"
      using in' by (simp add: futures_def)
    then show ?thesis using in' h s by simp
  qed
  have handle: "\<exists>k. future (heap st t) = Some k
           \<and> k < length (responder_calls st) \<and> responder_calls st ! k = t
           \<and> collected_by ys k (result (heap st t))
           \<and> t \<in> set (transfers_sent (exec_all xs st))
           \<and> future (heap (exec_all xs st) t) = Some k
           \<and> Some k \<in> set (futures (exec_all xs st))"
    if a: "responder_calls st0 = []" and b: "st = exec_all ys st0"
      and c: "t \<in> set (responder_calls st)" and d: "state (heap st t) = PROCESSED"
  proof -
    from dispatched_PROCESSED [of st0 t ys] a b c d obtain k where
      k: "future (heap st t) = Some k" "k < length (responder_calls st)"
        "responder_calls st ! k = t" "t \<in> set (transfers_sent st)"
        "collected_by ys k (result (heap st t))"
      by blast
    from stay [OF k(4) d] have
      "t \<in> set (transfers_sent (exec_all xs st))"
      "future (heap (exec_all xs st) t) = Some k"
      "Some k \<in> set (futures (exec_all xs st))"
      using k(1) by simp_all
    then show ?thesis using k by blast
  qed
  have base: "transfers_sent st = responder_calls st
        \<and> None \<notin> set (futures (exec_all xs st))
        \<and> (\<forall>k. Some k \<in> set (futures (exec_all xs st)) \<and> future_done (fs k) \<longrightarrow>
              asyncio_wait fs (futures (exec_all xs st)) = Returned ())"
    if e: "st = exec_all ys (Interledger_init h n)"
  proof -
    have run: "exec_all xs st = exec_all (ys @ xs) (Interledger_init h n)"
      unfolding e by (simp add: exec_all_append)
    have none: "None \<notin> set (futures (exec_all xs st))"
      unfolding run by (rule base_engine_handles(2))
    have eq: "transfers_sent st = responder_calls st"
      unfolding e by (rule base_engine_handles(1))
    show ?thesis
      using none eq asyncio_wait_returns [of "futures (exec_all xs st)" _ fs] by blast
  qed
  show ?thesis using p stay handle base by blast
qed

theorem lists_append_only_witness:
  "responder_calls (Interledger_init fresh_store 0) = []
   \<and> 0 \<in> set (responder_calls (exec_all [Receive (Inr [0]), Send, Result first_done, Process]
        (Interledger_init fresh_store 0)))
   \<and> 0 \<in> set (transfers_sent (exec_all [Receive (Inr [0]), Send, Result first_done, Process]
        (Interledger_init fresh_store 0)))
   \<and> state (heap (exec_all [Receive (Inr [0]), Send, Result first_done, Process]
        (Interledger_init fresh_store 0)) 0) = PROCESSED
   \<and> future (heap (exec_all [Receive (Inr [0]), Send, Result first_done, Process]
        (Interledger_init fresh_store 0)) 0) = Some 0
   \<and> result (heap (exec_all [Receive (Inr [0]), Send, Result first_done, Process]
        (Interledger_init fresh_store 0)) 0) = Some True
   \<and> collected_by [Receive (Inr [0]), Send, Result first_done, Process] 0 (Some True)
   \<and> transfers (exec_all [Receive (Inr [1]), Send]
        (exec_all [Receive (Inr [0]), Send, Result first_done, Process]
          (Interledger_init fresh_store 0))) = [0, 1]
   \<and> transfers_sent (exec_all [Receive (Inr [1]), Send]
        (exec_all [Receive (Inr [0]), Send, Result first_done, Process]
          (Interledger_init fresh_store 0))) = [0, 1]
   \<and> futures (exec_all [Receive (Inr [1]), Send]
        (exec_all [Receive (Inr [0]), Send, Result first_done, Process]
          (Interledger_init fresh_store 0))) = [Some 0, Some 1]
   \<and> Some 0 \<in> set (futures (exec_all [Receive (Inr [1]), Send]
        (exec_all [Receive (Inr [0]), Send, Result first_done, Process]
          (Interledger_init fresh_store 0))))
   \<and> future_done (first_done 0)
   \<and> asyncio_wait first_done (futures (exec_all [Receive (Inr [1]), Send]
        (exec_all [Receive (Inr [0]), Send, Result first_done, Process]
          (Interledger_init fresh_store 0)))) = Returned ()"
proof -
  define S where "S = exec_all [Receive (Inr [0]), Send, Result first_done, Process]
        (Interledger_init fresh_store 0)"
  have a: "responder_calls (Interledger_init fresh_store 0) = []
      \<and> 0 \<in> set (responder_calls S) \<and> 0 \<in> set (transfers_sent S)
      \<and> state (heap S 0) = PROCESSED \<and> future (heap S 0) = Some 0
      \<and> result (heap S 0) = Some True
      \<and> collected_by [Receive (Inr [0]), Send, Result first_done, Process] 0 (Some True)
      \<and> future_done (first_done 0)"
    unfolding S_def
    by (simp add: transfer_result_def asyncio_wait_def futures_def first_done_def
      process_result_def process_one_def truthy_def store_result_def
      send_transfer_def send_one_def receive_transfer_def collected_by_def
      Interledger_init_def fresh_store_def Transfer_init_def)
  have c: "transfers (exec_all [Receive (Inr [1]), Send] S) = [0, 1]
      \<and> transfers_sent (exec_all [Receive (Inr [1]), Send] S) = [0, 1]
      \<and> futures (exec_all [Receive (Inr [1]), Send] S) = [Some 0, Some 1]"
    unfolding S_def
    by (simp add: transfer_result_def asyncio_wait_def futures_def first_done_def
      process_result_def process_one_def truthy_def store_result_def
      send_transfer_def send_one_def receive_transfer_def
      Interledger_init_def fresh_store_def Transfer_init_def)
  have b: "Some 0 \<in> set (futures (exec_all [Receive (Inr [1]), Send] S))
      \<and> asyncio_wait first_done (futures (exec_all [Receive (Inr [1]), Send] S)) = Returned ()"
    using a lists_append_only [of S "[Receive (Inr [1]), Send]" 0
        "Interledger_init fresh_store 0"
        "[Receive (Inr [0]), Send, Result first_done, Process]" fresh_store 0 first_done]
    unfolding S_def [symmetric]
    by (metis S_def option.inject)
  show ?thesis using a b c unfolding S_def by blast
qed

text \<open>
  C10 as stated fails for a transfer that the state-aware constructor puts into the
  in-flight list: once PROCESSED it stays in the list, but it has no receive handle, its
  entry in the list of futures is \<open>None\<close>, and with that entry the wait of every later
  collect raises, also after a transfer of the pool has been dispatched and its receive
  has finished.
\<close>

theorem lists_append_only_counterexample:
  "transfers_sent (exec_all [Process]
      (StateInterledger_init (\<lambda>l. l) example_initiator example_responder fresh_store 0)) = [1]
   \<and> state (heap (exec_all [Process]
      (StateInterledger_init (\<lambda>l. l) example_initiator example_responder fresh_store 0)) 1)
       = PROCESSED
   \<and> future (heap (exec_all [Process]
      (StateInterledger_init (\<lambda>l. l) example_initiator example_responder fresh_store 0)) 1) = None
   \<and> responder_calls (exec_all [Process]
      (StateInterledger_init (\<lambda>l. l) example_initiator example_responder fresh_store 0)) = []
   \<and> futures (exec_all [Process, Send]
      (StateInterledger_init (\<lambda>l. l) example_initiator example_responder fresh_store 0))
       = [None, Some 0]
   \<and> fst (transfer_result first_done (exec_all [Process]
      (StateInterledger_init (\<lambda>l. l) example_initiator example_responder fresh_store 0)))
       = Raised TypeError
   \<and> fst (transfer_result first_done (exec_all [Process, Send]
      (StateInterledger_init (\<lambda>l. l) example_initiator example_responder fresh_store 0)))
       = Raised TypeError"
  by (simp add: StateInterledger_init_def restore_pending_transfers_ready_def
      restore_pending_transfers_sent_def set_intersection_list_def new_Transfer_def
      Interledger_init_def example_initiator_def example_responder_def fresh_store_def
      Transfer_init_def Let_def process_result_def process_one_def truthy_def
      send_transfer_def send_one_def transfer_result_def asyncio_wait_def futures_def)

end
